theory Spec2Isabelle
  imports Main "HOL-Library.AList" "HOL-Library.Sublist"
begin

section \<open>The file system the scripts work on\<close>

text \<open>
  Both migration scripts (posts and projects) and the renderer only use a handful of
  calls of Node's \<^verbatim>\<open>fs\<close> module on one directory tree. A node of that tree is a regular
  file with its bytes or a directory with its entries; the entries are kept in
  enumeration order (the order \<^verbatim>\<open>readdirSync\<close> returns them in, which is also the order
  the loops of the scripts run in). The names of a directory listing are distinct, so
  where the source enumerates a directory and then reaches an enumerated entry again by
  its joined path, the model uses the enumerated entry itself.

  A path is the list of its components below the content root
  (\<^verbatim>\<open>projectsDir\<close>, \<^verbatim>\<open>postsDir\<close>); \<^verbatim>\<open>path.join\<close> appends a component and
  \<^verbatim>\<open>path.dirname\<close> drops the last one. Symbolic links are not modelled.
\<close>

type_synonym path = "string list"

datatype node = File string | Dir "(string \<times> node) list"

datatype errno = ENOENT | ENOTDIR | EISDIR | ENOTEMPTY | EINVAL | EEXIST | EIO

fun nodeAt :: "path \<Rightarrow> node \<Rightarrow> node option" where
  "nodeAt [] n = Some n"
| "nodeAt (x # p) (File c) = None"
| "nodeAt (x # p) (Dir es) = (case map_of es x of None \<Rightarrow> None | Some n \<Rightarrow> nodeAt p n)"

definition existsSync :: "path \<Rightarrow> node \<Rightarrow> bool" where
  "existsSync p t = (nodeAt p t \<noteq> None)"

definition isDirectory :: "node \<Rightarrow> bool" where
  "isDirectory n = (case n of Dir es \<Rightarrow> True | File c \<Rightarrow> False)"

definition readdirSync :: "path \<Rightarrow> node \<Rightarrow> errno + (string \<times> node) list" where
  "readdirSync p t =
     (case nodeAt p t of
        None \<Rightarrow> Inl ENOENT
      | Some (File c) \<Rightarrow> Inl ENOTDIR
      | Some (Dir es) \<Rightarrow> Inr es)"

text \<open>
  \<open>alter p f t\<close> replaces what is at the path \<open>p\<close> (nothing, a file or a directory) by
  what \<open>f\<close> returns for it, inside the directory that holds it. It fails when a
  directory on the way is missing or is a regular file, and when \<open>f\<close> does. A new entry
  goes to the end of the listing, a replaced one keeps its place. The content root
  itself is never the target of a write.
\<close>

fun alter :: "path \<Rightarrow> (node option \<Rightarrow> errno + node option) \<Rightarrow> node \<Rightarrow> errno + node" where
  "alter [] f n = Inl EINVAL"
| "alter (x # p) f (File c) = Inl ENOTDIR"
| "alter [x] f (Dir es) =
     (case f (map_of es x) of
        Inl e \<Rightarrow> Inl e
      | Inr None \<Rightarrow> Inr (Dir (AList.delete x es))
      | Inr (Some n) \<Rightarrow> Inr (Dir (AList.update x n es)))"
| "alter (x # y # p) f (Dir es) =
     (case map_of es x of
        None \<Rightarrow> Inl ENOENT
      | Some n \<Rightarrow>
          (case alter (y # p) f n of
             Inl e \<Rightarrow> Inl e
           | Inr n' \<Rightarrow> Inr (Dir (AList.update x n' es))))"

text \<open>\<^verbatim>\<open>fs.mkdirSync(dir, { recursive: true })\<close>: missing ancestors are created too.\<close>

fun mkdirp :: "path \<Rightarrow> node \<Rightarrow> errno + node" where
  "mkdirp [] (Dir es) = Inr (Dir es)"
| "mkdirp [] (File c) = Inl EEXIST"
| "mkdirp (x # p) (File c) = Inl ENOTDIR"
| "mkdirp (x # p) (Dir es) =
     (case mkdirp p (case map_of es x of None \<Rightarrow> Dir [] | Some n \<Rightarrow> n) of
        Inl e \<Rightarrow> Inl e
      | Inr n' \<Rightarrow> Inr (Dir (AList.update x n' es)))"

text \<open>\<^verbatim>\<open>fs.writeFileSync(path, data)\<close>: creates the file or replaces its bytes.\<close>

definition putFile :: "string \<Rightarrow> node option \<Rightarrow> errno + node option" where
  "putFile c old = (case old of Some (Dir es) \<Rightarrow> Inl EISDIR | _ \<Rightarrow> Inr (Some (File c)))"

definition writeFile :: "path \<Rightarrow> string \<Rightarrow> node \<Rightarrow> errno + node" where
  "writeFile p c t = alter p (putFile c) t"

text \<open>\<^verbatim>\<open>fs.copyFileSync(src, dest)\<close>: the source has to be a regular file; an existing
  destination file is overwritten (no \<^verbatim>\<open>COPYFILE_EXCL\<close>).\<close>

definition copyFile :: "path \<Rightarrow> path \<Rightarrow> node \<Rightarrow> errno + node" where
  "copyFile src dest t =
     (case nodeAt src t of
        None \<Rightarrow> Inl ENOENT
      | Some (Dir es) \<Rightarrow> Inl EISDIR
      | Some (File c) \<Rightarrow> writeFile dest c t)"

text \<open>
  \<^verbatim>\<open>fs.renameSync(src, dest)\<close> as rename(2) does it: a directory may replace nothing or
  an empty directory, a file may replace nothing or a file, and nothing can be moved
  below itself.
\<close>

definition putMoved :: "node \<Rightarrow> node option \<Rightarrow> errno + node option" where
  "putMoved n old =
     (case old of
        None \<Rightarrow> Inr (Some n)
      | Some (File c) \<Rightarrow> (if isDirectory n then Inl ENOTDIR else Inr (Some n))
      | Some (Dir es) \<Rightarrow>
          (if \<not> isDirectory n then Inl EISDIR
           else if es = [] then Inr (Some n) else Inl ENOTEMPTY))"

definition unlink :: "node option \<Rightarrow> errno + node option" where
  "unlink old = Inr None"

definition rename :: "path \<Rightarrow> path \<Rightarrow> node \<Rightarrow> errno + node" where
  "rename src dest t =
     (case nodeAt src t of
        None \<Rightarrow> Inl ENOENT
      | Some n \<Rightarrow>
          if src = dest then Inr t
          else if prefix src dest then Inl EINVAL
          else (case alter dest (putMoved n) t of
                  Inl e \<Rightarrow> Inl e
                | Inr t' \<Rightarrow> alter src unlink t'))"

text \<open>\<^verbatim>\<open>fs.rmSync(dir, { recursive: true, force: true })\<close>.\<close>

definition rm :: "path \<Rightarrow> node \<Rightarrow> errno + node" where
  "rm p t = (if existsSync p t then alter p unlink t else Inr t)"

definition readFileSync :: "path \<Rightarrow> node \<Rightarrow> errno + string" where
  "readFileSync p t =
     (case nodeAt p t of
        None \<Rightarrow> Inl ENOENT
      | Some (Dir es) \<Rightarrow> Inl EISDIR
      | Some (File c) \<Rightarrow> Inr c)"

subsection \<open>Calls that write, and how they can fail\<close>

text \<open>
  The state of a run is the tree below the content root together with a script of
  faults: every call of the \<^verbatim>\<open>fs\<close> module that writes takes the next entry of the
  script, and fails with \<open>EIO\<close> without changing anything when that entry is \<open>True\<close>
  (a full disk, a permission, a removed device). An empty script is a run in which the
  only failures are the ones the tree itself causes. A thrown exception is the value
  \<open>Inl e\<close>, and it ends every loop and function it passes through, as in the source,
  where nothing below \<^verbatim>\<open>main().catch\<close> catches.
\<close>

record fs =
  tree :: node
  faults :: "bool list"

type_synonym 'a io = "fs \<Rightarrow> (errno + 'a) \<times> fs"

definition sysWrite :: "(node \<Rightarrow> errno + node) \<Rightarrow> unit io" where
  "sysWrite f s =
     (case faults s of
        True # fl \<Rightarrow> (Inl EIO, s\<lparr>faults := fl\<rparr>)
      | _ \<Rightarrow>
          (case f (tree s) of
             Inl e \<Rightarrow> (Inl e, s\<lparr>faults := tl (faults s)\<rparr>)
           | Inr t \<Rightarrow> (Inr (), s\<lparr>tree := t, faults := tl (faults s)\<rparr>)))"

definition succeed :: "'a \<Rightarrow> 'a io" where
  "succeed x s = (Inr x, s)"

definition andThen :: "'a io \<Rightarrow> ('a \<Rightarrow> 'b io) \<Rightarrow> 'b io" where
  "andThen m k s = (case m s of (Inl e, s') \<Rightarrow> (Inl e, s') | (Inr x, s') \<Rightarrow> k x s')"

fun forEach :: "'a list \<Rightarrow> ('a \<Rightarrow> unit io) \<Rightarrow> unit io" where
  "forEach [] body = succeed ()"
| "forEach (x # xs) body = andThen (body x) (\<lambda>u. forEach xs body)"

subsection \<open>The helpers of the scripts\<close>

definition dirname :: "path \<Rightarrow> path" where
  "dirname p = butlast p"

definition mkdirSync :: "path \<Rightarrow> unit io" where
  "mkdirSync dir s = (if existsSync dir (tree s) then succeed () s else sysWrite (mkdirp dir) s)"

definition moveSync :: "path \<Rightarrow> path \<Rightarrow> unit io" where
  "moveSync src dest = andThen (mkdirSync (dirname dest)) (\<lambda>u. sysWrite (rename src dest))"

definition copyFileSync :: "path \<Rightarrow> path \<Rightarrow> unit io" where
  "copyFileSync src dest = andThen (mkdirSync (dirname dest)) (\<lambda>u. sysWrite (copyFile src dest))"

definition removeSync :: "path \<Rightarrow> unit io" where
  "removeSync dir s = (if existsSync dir (tree s) then sysWrite (rm dir) s else succeed () s)"

section \<open>The migration script\<close>

text \<open>
  \<^verbatim>\<open>migrate-projects.js\<close> and \<^verbatim>\<open>migrate-posts.js\<close> are the same program up to the name
  of the content root and of their variables; one model serves both.

  A document is read with \<^verbatim>\<open>readFileSync(indexPath, 'utf-8')\<close> and written back with
  \<^verbatim>\<open>writeFileSync\<close>, so its bytes pass through the runtime's UTF-8 decoder and encoder.
  That pair is the parameter \<open>recode\<close> of the collector (the identity on well-formed
  UTF-8); the \<open>content\<close> of a collected document is the encoding of the string read.
\<close>

type_synonym codec = "string \<Rightarrow> string"

record doc =
  content :: string
  files :: "string list"
  sourcePath :: path

type_synonym langVersions = "(string \<times> doc) list"
type_synonym projects = "(string \<times> langVersions) list"

datatype failure = LayoutNotFound | Thrown errno

definition looksLikeLanguage :: "node \<Rightarrow> bool" where
  "looksLikeLanguage n =
     (case n of
        File c \<Rightarrow> False
      | Dir subdirs \<Rightarrow>
          list_ex (\<lambda>(d, m). isDirectory m \<and> existsSync [''index.md''] m) subdirs)"

definition detectLanguages :: "node option \<Rightarrow> failure + string list" where
  "detectLanguages w =
     (case w of
        None \<Rightarrow> Inl LayoutNotFound
      | Some t \<Rightarrow>
          (case readdirSync [] t of
             Inl e \<Rightarrow> Inl (Thrown e)
           | Inr entries \<Rightarrow>
               Inr (map fst (filter (\<lambda>(name, n). isDirectory n \<and> looksLikeLanguage n) entries))))"

text \<open>\<^verbatim>\<open>projects.get(slug).set(lang, ...)\<close> on a \<^verbatim>\<open>Map\<close> of \<^verbatim>\<open>Map\<close>s: a new key goes to
  the end of the iteration order, a known key keeps its place.\<close>

definition setProject :: "string \<Rightarrow> string \<Rightarrow> doc \<Rightarrow> projects \<Rightarrow> projects" where
  "setProject slug lang d ps =
     AList.update slug
       (AList.update lang d (case map_of ps slug of None \<Rightarrow> [] | Some lv \<Rightarrow> lv)) ps"

fun collectSlugs :: "codec \<Rightarrow> string \<Rightarrow> (string \<times> node) list \<Rightarrow> projects \<Rightarrow> errno + projects" where
  "collectSlugs recode lang [] ps = Inr ps"
| "collectSlugs recode lang ((slug, m) # rest) ps =
     (case m of
        File c \<Rightarrow> collectSlugs recode lang rest ps
      | Dir entries \<Rightarrow>
          (case map_of entries ''index.md'' of
             None \<Rightarrow> collectSlugs recode lang rest ps
           | Some (Dir es) \<Rightarrow> Inl EISDIR
           | Some (File c) \<Rightarrow>
               collectSlugs recode lang rest
                 (setProject slug lang
                    \<lparr>content = recode c,
                     files = filter (\<lambda>f. f \<noteq> ''index.md'') (map fst entries),
                     sourcePath = [lang, slug]\<rparr> ps)))"

fun collectLangs :: "codec \<Rightarrow> string list \<Rightarrow> node \<Rightarrow> projects \<Rightarrow> errno + projects" where
  "collectLangs recode [] t ps = Inr ps"
| "collectLangs recode (lang # langs) t ps =
     (if \<not> existsSync [lang] t then collectLangs recode langs t ps
      else (case readdirSync [lang] t of
              Inl e \<Rightarrow> Inl e
            | Inr slugDirs \<Rightarrow>
                (case collectSlugs recode lang slugDirs ps of
                   Inl e \<Rightarrow> Inl e
                 | Inr ps' \<Rightarrow> collectLangs recode langs t ps')))"

definition collectProjects :: "codec \<Rightarrow> string list \<Rightarrow> node \<Rightarrow> errno + projects" where
  "collectProjects recode languages t = collectLangs recode languages t []"

subsection \<open>migrate\<close>

definition tempDir :: path where
  "tempDir = [''_new_structure'']"

definition backupDir :: path where
  "backupDir = [''_old_structure_backup'']"

text \<open>\<open>unlessDry\<close> is the guard \<^verbatim>\<open>if (!dryRun) { ... }\<close>.\<close>

definition unlessDry :: "bool \<Rightarrow> unit io \<Rightarrow> unit io" where
  "unlessDry dryRun m = (if dryRun then succeed () else m)"

text \<open>
  \<^verbatim>\<open>allMedia\<close> is a \<^verbatim>\<open>Set\<close> of freshly built objects \<^verbatim>\<open>{ file, source }\<close>: no two of them
  are the same object, so the set is the list of all of them in insertion order.
\<close>

definition allMedia :: "langVersions \<Rightarrow> (string \<times> path) list" where
  "allMedia lv = concat (map (\<lambda>(lang, d). map (\<lambda>file. (file, sourcePath d @ [file])) (files d)) lv)"

fun copyMedia :: "bool \<Rightarrow> path \<Rightarrow> (string \<times> path) list \<Rightarrow> string list \<Rightarrow> unit io" where
  "copyMedia dryRun newProjectDir [] copiedMedia = succeed ()"
| "copyMedia dryRun newProjectDir ((file, source) # rest) copiedMedia =
     (if file \<in> set copiedMedia then copyMedia dryRun newProjectDir rest copiedMedia
      else andThen (unlessDry dryRun (copyFileSync source (newProjectDir @ [file])))
             (\<lambda>u. copyMedia dryRun newProjectDir rest (copiedMedia @ [file])))"

definition writeVersion :: "bool \<Rightarrow> path \<Rightarrow> string \<times> doc \<Rightarrow> unit io" where
  "writeVersion dryRun newProjectDir v =
     unlessDry dryRun (sysWrite (writeFile (newProjectDir @ [fst v @ ''.md'']) (content (snd v))))"

definition stageProject :: "bool \<Rightarrow> string \<times> langVersions \<Rightarrow> unit io" where
  "stageProject dryRun p =
     andThen (unlessDry dryRun (mkdirSync (tempDir @ [fst p])))
       (\<lambda>u. andThen (forEach (snd p) (writeVersion dryRun (tempDir @ [fst p])))
         (\<lambda>u. copyMedia dryRun (tempDir @ [fst p]) (allMedia (snd p)) []))"

text \<open>Lines 129 to 173 of \<^verbatim>\<open>migrate\<close>: everything is written below \<open>tempDir\<close>.\<close>

definition staging :: "bool \<Rightarrow> projects \<Rightarrow> unit io" where
  "staging dryRun ps =
     andThen (unlessDry dryRun (mkdirSync tempDir)) (\<lambda>u. forEach ps (stageProject dryRun))"

definition backupLanguage :: "string \<Rightarrow> unit io" where
  "backupLanguage lang s =
     (if existsSync [lang] (tree s) then moveSync [lang] (backupDir @ [lang]) s else succeed () s)"

definition readDirs :: "path \<Rightarrow> string list io" where
  "readDirs p s =
     (case readdirSync p (tree s) of
        Inl e \<Rightarrow> (Inl e, s)
      | Inr es \<Rightarrow> (Inr (map fst (filter (\<lambda>(name, n). isDirectory n) es)), s))"

definition promote :: "string \<Rightarrow> unit io" where
  "promote slug = moveSync (tempDir @ [slug]) [slug]"

text \<open>Lines 181 to 206: the backup, the move into place, the removal of \<open>tempDir\<close>.\<close>

definition destructive :: "string list \<Rightarrow> unit io" where
  "destructive languages =
     andThen (forEach languages backupLanguage)
       (\<lambda>u. andThen (readDirs tempDir)
         (\<lambda>newProjectDirs. andThen (forEach newProjectDirs promote)
           (\<lambda>u. removeSync tempDir)))"

datatype report = NothingToMigrate | DryRunComplete | MigrationComplete

definition migrate :: "bool \<Rightarrow> string list \<Rightarrow> projects \<Rightarrow> report io" where
  "migrate dryRun languages ps =
     andThen (staging dryRun ps)
       (\<lambda>u. if dryRun then succeed DryRunComplete
            else andThen (destructive languages) (\<lambda>u. succeed MigrationComplete))"

subsection \<open>main\<close>

text \<open>
  The world of \<^verbatim>\<open>main\<close> is what is at the content root, if anything, and the script of
  faults. \<^verbatim>\<open>process.exit(1)\<close> after a missing root is \<open>Inl LayoutNotFound\<close>; an exception
  that reaches \<^verbatim>\<open>main().catch\<close> is \<open>Inl (Thrown e)\<close>; \<^verbatim>\<open>process.exit(0)\<close> with no language
  folder is \<open>Inr NothingToMigrate\<close>. \<^verbatim>\<open>migrate\<close> is only reached with a content root that
  is there, and nothing in it removes the root.
\<close>

definition main :: "codec \<Rightarrow> bool \<Rightarrow> node option \<Rightarrow> bool list \<Rightarrow> (failure + report) \<times> node option \<times> bool list" where
  "main recode dryRun w fl =
     (case detectLanguages w of
        Inl e \<Rightarrow> (Inl e, w, fl)
      | Inr languages \<Rightarrow>
          (case w of
             None \<Rightarrow> (Inl LayoutNotFound, w, fl)
           | Some t \<Rightarrow>
               if languages = [] then (Inr NothingToMigrate, w, fl)
               else (case collectProjects recode languages t of
                       Inl e \<Rightarrow> (Inl (Thrown e), w, fl)
                     | Inr ps \<Rightarrow>
                         (case migrate dryRun languages ps \<lparr>tree = t, faults = fl\<rparr> of
                            (Inl e, s) \<Rightarrow> (Inl (Thrown e), Some (tree s), faults s)
                          | (Inr r, s) \<Rightarrow> (Inr r, Some (tree s), faults s)))))"


section \<open>The renderer: translation tables and the language switcher\<close>

text \<open>
  The renderer reads \<^verbatim>\<open>config.languages\<close> and the two content roots
  \<^verbatim>\<open>path.join(config.sourceDir, 'posts')\<close> and \<^verbatim>\<open>path.join(config.sourceDir, 'projects')\<close>,
  each of which may be missing. A folder slug is one path component, or the empty
  string, which \<^verbatim>\<open>path.join\<close> drops.

  Four functions of the runtime and of the \<^verbatim>\<open>front-matter\<close> package are parameters:
  \<open>recode\<close> as before; \<open>frontMatter\<close>, which returns the attributes of a document or
  \<open>None\<close> where the package throws; \<open>toUpperCase\<close>; and \<open>convert\<close>, the conversion to a
  string of a number or an object in a template literal, which can throw.
  A JavaScript object used as a dictionary is an association list in insertion order
  (language codes are not array indices, for which \<^verbatim>\<open>Object.keys\<close> has another order).
\<close>

record site =
  configLanguages :: "string list"
  postsRoot :: "node option"
  projectsRoot :: "node option"

subsection \<open>Values\<close>

text \<open>
  The value of a front-matter attribute is whatever the YAML parser makes of it, so the
  rows of a translation table hold JavaScript values, not only strings. A number is
  \<^verbatim>\<open>NaN\<close>, an infinity, or \<open>Finite m e\<close> for \<open>m\<close> times two to the power \<open>e\<close> (zero when
  \<open>m\<close> is). An object (an array, a date, a mapping) is known by a reference only: all
  that the code does with one is to test it, which gives true, and to print it, which
  is up to \<open>convert\<close>. An attribute that the front matter does not have is
  \<^verbatim>\<open>undefined\<close>. The parser yields no symbol and no big integer.
\<close>

datatype number = NaN | PosInfinity | NegInfinity | Finite int int

datatype jsValue = Undefined | Null | Boolean bool | Number number | Str string | Object nat

type_synonym frontAttributes = "string \<Rightarrow> jsValue"
type_synonym translationTable = "(string \<times> jsValue) list"

datatype exn = TypeError | SystemError errno

text \<open>What \<^verbatim>\<open>if\<close>, \<^verbatim>\<open>||\<close> and \<^verbatim>\<open>?:\<close> take for true.\<close>

fun truthy :: "jsValue \<Rightarrow> bool" where
  "truthy Undefined = False"
| "truthy Null = False"
| "truthy (Boolean b) = b"
| "truthy (Number NaN) = False"
| "truthy (Number PosInfinity) = True"
| "truthy (Number NegInfinity) = True"
| "truthy (Number (Finite m e)) = (m \<noteq> 0)"
| "truthy (Str s) = (s \<noteq> [])"
| "truthy (Object r) = True"

definition orValue :: "jsValue \<Rightarrow> jsValue \<Rightarrow> jsValue" where
  "orValue a b = (if truthy a then a else b)"

text \<open>\<^verbatim>\<open>${v}\<close> in a template literal.\<close>

fun toStr :: "(jsValue \<Rightarrow> exn + string) \<Rightarrow> jsValue \<Rightarrow> exn + string" where
  "toStr convert Undefined = Inr ''undefined''"
| "toStr convert Null = Inr ''null''"
| "toStr convert (Boolean b) = Inr (if b then ''true'' else ''false'')"
| "toStr convert (Str s) = Inr s"
| "toStr convert (Number n) = convert (Number n)"
| "toStr convert (Object r) = convert (Object r)"

text \<open>A parameter that is a string or \<^verbatim>\<open>undefined\<close>/\<^verbatim>\<open>null\<close>, as a value.\<close>

definition valueOf :: "string option \<Rightarrow> jsValue" where
  "valueOf a = (case a of None \<Rightarrow> Undefined | Some s \<Rightarrow> Str s)"

text \<open>\<^verbatim>\<open>a || b\<close> on two such parameters: the empty string is falsy.\<close>

definition orElse :: "string option \<Rightarrow> string option \<Rightarrow> string option" where
  "orElse a b = (case a of None \<Rightarrow> b | Some s \<Rightarrow> if s = [] then b else Some s)"

text \<open>\<^verbatim>\<open>s.replace(pat, rep)\<close> with a string pattern replaces the first occurrence only.\<close>

fun replaceFirst :: "string \<Rightarrow> string \<Rightarrow> string \<Rightarrow> string" where
  "replaceFirst pat rep [] = (if pat = [] then rep else [])"
| "replaceFirst pat rep (c # cs) =
     (if prefix pat (c # cs) then rep @ drop (length pat) (c # cs)
      else c # replaceFirst pat rep cs)"

definition endsWith :: "string \<Rightarrow> string \<Rightarrow> bool" where
  "endsWith s suf = suffix suf s"

definition slugDir :: "string \<Rightarrow> path" where
  "slugDir folderSlug = (if folderSlug = [] then [] else [folderSlug])"

text \<open>The \<^verbatim>\<open>try\<close> block of the loop with \<^verbatim>\<open>attributes.slug || folderSlug\<close> in it: a
  document that cannot be read (it is a directory) or parsed gets the folder slug.\<close>

definition publicSlug :: "(string \<Rightarrow> frontAttributes option) \<Rightarrow> codec \<Rightarrow> string \<Rightarrow> node \<Rightarrow> jsValue" where
  "publicSlug frontMatter recode folderSlug n =
     (case n of
        Dir es \<Rightarrow> Str folderSlug
      | File c \<Rightarrow>
          (case frontMatter (recode c) of
             None \<Rightarrow> Str folderSlug
           | Some attrs \<Rightarrow> orValue (attrs ''slug'') (Str folderSlug)))"

definition addTranslation ::
  "(string \<Rightarrow> frontAttributes option) \<Rightarrow> codec \<Rightarrow> string list \<Rightarrow> string \<Rightarrow> translationTable \<Rightarrow> string \<times> node \<Rightarrow> translationTable" where
  "addTranslation frontMatter recode languages folderSlug tr entry =
     (if \<not> endsWith (fst entry) ''.md'' then tr
      else if replaceFirst ''.md'' '''' (fst entry) \<notin> set languages then tr
      else AList.update (replaceFirst ''.md'' '''' (fst entry))
             (publicSlug frontMatter recode folderSlug (snd entry)) tr)"

text \<open>The body shared, word for word, by \<^verbatim>\<open>getPostTranslations\<close> and \<^verbatim>\<open>getProjectTranslations\<close>.\<close>

definition translationsIn ::
  "(string \<Rightarrow> frontAttributes option) \<Rightarrow> codec \<Rightarrow> string list \<Rightarrow> node option \<Rightarrow> string \<Rightarrow> errno + translationTable" where
  "translationsIn frontMatter recode languages root folderSlug =
     (if languages = [] then Inr []
      else (case root of
              None \<Rightarrow> Inr []
            | Some t \<Rightarrow>
                if \<not> existsSync (slugDir folderSlug) t then Inr []
                else (case readdirSync (slugDir folderSlug) t of
                        Inl e \<Rightarrow> Inl e
                      | Inr entries \<Rightarrow>
                          Inr (foldl (addTranslation frontMatter recode languages folderSlug) [] entries))))"

definition getPostTranslations ::
  "(string \<Rightarrow> frontAttributes option) \<Rightarrow> codec \<Rightarrow> site \<Rightarrow> string \<Rightarrow> errno + translationTable" where
  "getPostTranslations frontMatter recode cfg folderSlug =
     translationsIn frontMatter recode (configLanguages cfg) (postsRoot cfg) folderSlug"

definition getProjectTranslations ::
  "(string \<Rightarrow> frontAttributes option) \<Rightarrow> codec \<Rightarrow> site \<Rightarrow> string \<Rightarrow> errno + translationTable" where
  "getProjectTranslations frontMatter recode cfg folderSlug =
     translationsIn frontMatter recode (configLanguages cfg) (projectsRoot cfg) folderSlug"

subsection \<open>generateLanguageSwitcher\<close>

definition dq :: string where
  "dq = [CHR 0x22]"

text \<open>The table \<^verbatim>\<open>langNames\<close>, its names in UTF-8.\<close>

definition langNames :: "(string \<times> string) list" where
  "langNames =
     [(''en'', ''English''),
      (''ru'', [CHR 0xD0, CHR 0xA0, CHR 0xD1, CHR 0x83, CHR 0xD1, CHR 0x81, CHR 0xD1, CHR 0x81,
                CHR 0xD0, CHR 0xBA, CHR 0xD0, CHR 0xB8, CHR 0xD0, CHR 0xB9]),
      (''de'', ''Deutsch''),
      (''zh'', [CHR 0xE4, CHR 0xB8, CHR 0xAD, CHR 0xE6, CHR 0x96, CHR 0x87]),
      (''es'', ''Espa'' @ [CHR 0xC3, CHR 0xB1] @ ''ol''),
      (''fr'', ''Fran'' @ [CHR 0xC3, CHR 0xA7] @ ''ais''),
      (''ja'', [CHR 0xE6, CHR 0x97, CHR 0xA5, CHR 0xE6, CHR 0x9C, CHR 0xAC, CHR 0xE8, CHR 0xAA, CHR 0x9E]),
      (''ko'', [CHR 0xED, CHR 0x95, CHR 0x9C, CHR 0xEA, CHR 0xB5, CHR 0xAD, CHR 0xEC, CHR 0x96, CHR 0xB4])]"

definition displayName :: "(string \<Rightarrow> string) \<Rightarrow> string \<Rightarrow> string" where
  "displayName toUpperCase lang =
     (case map_of langNames lang of None \<Rightarrow> toUpperCase lang | Some n \<Rightarrow> n)"

definition typeToPath :: "string \<Rightarrow> string" where
  "typeToPath type =
     (if type = ''post'' then ''posts'' else if type = ''project'' then ''projects'' else '''')"

definition langCurrent :: "string \<Rightarrow> string" where
  "langCurrent name = ''<span class='' @ dq @ ''lang-current'' @ dq @ ''>'' @ name @ ''</span>''"

definition langLink :: "string \<Rightarrow> string \<Rightarrow> string" where
  "langLink href name =
     ''<a href='' @ dq @ href @ dq @ '' class='' @ dq @ ''lang-link'' @ dq @ ''>'' @ name @ ''</a>''"

text \<open>\<^verbatim>\<open>translations[lang]\<close>.\<close>

definition property :: "translationTable \<Rightarrow> string \<Rightarrow> jsValue" where
  "property tr k = (case map_of tr k of None \<Rightarrow> Undefined | Some v \<Rightarrow> v)"

text \<open>The body of the \<^verbatim>\<open>map\<close> callback. \<^verbatim>\<open>href\<close> is built for the current language
  too, and building it throws when the conversion of \<^verbatim>\<open>langSlug\<close> does.\<close>

definition switcherLink ::
  "(jsValue \<Rightarrow> exn + string) \<Rightarrow> (string \<Rightarrow> string) \<Rightarrow> string \<Rightarrow> string \<Rightarrow> string option
     \<Rightarrow> string \<Rightarrow> translationTable \<Rightarrow> string \<Rightarrow> exn + string" where
  "switcherLink convert toUpperCase defaultLang currentLang slug type tr lang =
     (let urlPrefix = (if lang = defaultLang then '''' else ''/'' @ lang);
          langSlug = orValue (property tr lang) (valueOf slug)
      in case (if typeToPath type \<noteq> []
               then (case toStr convert langSlug of
                       Inl e \<Rightarrow> Inl e
                     | Inr p \<Rightarrow> Inr (urlPrefix @ ''/'' @ typeToPath type @ ''/'' @ p @ ''/''))
               else Inr (urlPrefix @ ''/'')) of
           Inl e \<Rightarrow> Inl e
         | Inr href \<Rightarrow>
             Inr (if lang = currentLang then langCurrent (displayName toUpperCase lang)
                  else langLink href (displayName toUpperCase lang)))"

text \<open>\<^verbatim>\<open>xs.map(f)\<close> with a callback that can throw: the first exception ends it.\<close>

fun mapThrowing :: "('a \<Rightarrow> exn + 'b) \<Rightarrow> 'a list \<Rightarrow> exn + 'b list" where
  "mapThrowing f [] = Inr []"
| "mapThrowing f (x # xs) =
     (case f x of
        Inl e \<Rightarrow> Inl e
      | Inr y \<Rightarrow> (case mapThrowing f xs of Inl e \<Rightarrow> Inl e | Inr ys \<Rightarrow> Inr (y # ys)))"

fun joinWith :: "string \<Rightarrow> string list \<Rightarrow> string" where
  "joinWith sep [] = []"
| "joinWith sep [x] = x"
| "joinWith sep (x # y # ys) = x @ sep @ joinWith sep (y # ys)"

text \<open>From \<^verbatim>\<open>if (availableLangs.length <= 1) return ''\<close> to the end of the function.\<close>

definition renderSwitcher ::
  "(jsValue \<Rightarrow> exn + string) \<Rightarrow> (string \<Rightarrow> string) \<Rightarrow> string \<Rightarrow> string \<Rightarrow> string option
     \<Rightarrow> string \<Rightarrow> translationTable \<Rightarrow> string list \<Rightarrow> exn + string" where
  "renderSwitcher convert toUpperCase defaultLang currentLang slug type tr availableLangs =
     (if length availableLangs \<le> 1 then Inr ''''
      else (case mapThrowing (switcherLink convert toUpperCase defaultLang currentLang slug type tr)
                   availableLangs of
              Inl e \<Rightarrow> Inl e
            | Inr links \<Rightarrow>
                Inr (''<div class='' @ dq @ ''lang-switcher'' @ dq @ ''>''
                     @ joinWith '' | '' links @ ''</div>'')))"

text \<open>\<^verbatim>\<open>path.join\<close> throws a \<^verbatim>\<open>TypeError\<close> on a slug that is \<^verbatim>\<open>undefined\<close>.\<close>

definition lookupTranslations ::
  "(string \<Rightarrow> errno + translationTable) \<Rightarrow> string option \<Rightarrow> exn + translationTable" where
  "lookupTranslations get lookupSlug =
     (case lookupSlug of
        None \<Rightarrow> Inl TypeError
      | Some s \<Rightarrow> (case get s of Inl e \<Rightarrow> Inl (SystemError e) | Inr tr \<Rightarrow> Inr tr))"

definition generateLanguageSwitcher ::
  "(jsValue \<Rightarrow> exn + string) \<Rightarrow> (string \<Rightarrow> frontAttributes option) \<Rightarrow> codec \<Rightarrow> (string \<Rightarrow> string)
     \<Rightarrow> site \<Rightarrow> string \<Rightarrow> string option \<Rightarrow> string \<Rightarrow> string option \<Rightarrow> exn + string" where
  "generateLanguageSwitcher convert frontMatter recode toUpperCase cfg currentLang slug type folderSlug =
     (if length (configLanguages cfg) \<le> 1 then Inr ''''
      else if type = ''post'' then
        (case lookupTranslations (getPostTranslations frontMatter recode cfg) (orElse folderSlug slug) of
           Inl e \<Rightarrow> Inl e
         | Inr tr \<Rightarrow>
             renderSwitcher convert toUpperCase (hd (configLanguages cfg)) currentLang slug type tr
               (map fst tr))
      else if type = ''project'' then
        (case lookupTranslations (getProjectTranslations frontMatter recode cfg) (orElse folderSlug slug) of
           Inl e \<Rightarrow> Inl e
         | Inr tr \<Rightarrow>
             renderSwitcher convert toUpperCase (hd (configLanguages cfg)) currentLang slug type tr
               (map fst tr))
      else renderSwitcher convert toUpperCase (hd (configLanguages cfg)) currentLang slug type []
             (configLanguages cfg))"


section \<open>Vocabulary of the proofs\<close>

text \<open>
  \<open>outside X s s'\<close>: the entries of the content root whose names are not in \<open>X\<close> are
  the same, with all that is below them, in the two states. \<open>confined X m\<close>: whatever
  the run \<open>m\<close> does and however it ends, it leaves the entries not in \<open>X\<close> alone.
\<close>

definition outside :: "string set \<Rightarrow> fs \<Rightarrow> fs \<Rightarrow> bool" where
  "outside X s s' = (\<forall>y. y \<notin> X \<longrightarrow> nodeAt [y] (tree s') = nodeAt [y] (tree s))"

definition confined :: "string set \<Rightarrow> 'a io \<Rightarrow> bool" where
  "confined X m = (\<forall>s. outside X s (snd (m s)))"

text \<open>
  \<open>stagedOver t0 t\<close>: the tree \<open>t\<close> is the tree \<open>t0\<close>, or it is \<open>t0\<close> with one more entry,
  \<^verbatim>\<open>_new_structure\<close>, at the end of the listing of the content root. \<open>keeps P m\<close>: the
  run \<open>m\<close>, however it ends, leaves a tree with the property \<open>P\<close> when it starts on one.
\<close>

definition stagedOver :: "node \<Rightarrow> node \<Rightarrow> bool" where
  "stagedOver t0 t = (t = t0 \<or> (\<exists>es n. t0 = Dir es \<and> t = Dir (es @ [(''_new_structure'', n)])))"

definition keeps :: "(node \<Rightarrow> bool) \<Rightarrow> 'a io \<Rightarrow> bool" where
  "keeps P m = (\<forall>s. P (tree s) \<longrightarrow> P (tree (snd (m s))))"

text \<open>A tree is well formed when the names of every directory listing in it are distinct,
  as they are on a disk.\<close>

fun wellFormed :: "node \<Rightarrow> bool" where
  "wellFormed (File c) = True"
| "wellFormed (Dir es) = (distinct (map fst es) \<and> (\<forall>e \<in> set es. wellFormed (snd e)))"

definition entriesAt :: "node \<Rightarrow> path \<Rightarrow> (string \<times> node) list" where
  "entriesAt t p = (case nodeAt p t of Some (Dir es) \<Rightarrow> es | _ \<Rightarrow> [])"

definition fileAt :: "node \<Rightarrow> path \<Rightarrow> string" where
  "fileAt t p = (case nodeAt p t of Some (File c) \<Rightarrow> c | _ \<Rightarrow> [])"

definition unrelated :: "path \<Rightarrow> path \<Rightarrow> bool" where
  "unrelated p q = (\<not> prefix p q \<and> \<not> prefix q p)"

text \<open>The media of an item that the copy loop does copy, in the order it copies them:
  of the pairs with one file name, the first.\<close>

fun firstSources :: "(string \<times> path) list \<Rightarrow> string list \<Rightarrow> (string \<times> path) list" where
  "firstSources [] copied = []"
| "firstSources ((name, source) # rest) copied =
     (if name \<in> set copied then firstSources rest copied
      else (name, source) # firstSources rest (copied @ [name]))"

text \<open>The listing of a staged item directory: the listing \<open>ds\<close> it had, after the
  documents of the item and then its media have been written into it, the media with
  the bytes they have in the tree \<open>t\<close>.\<close>

definition putEntry :: "(string \<times> node) list \<Rightarrow> string \<times> string \<Rightarrow> (string \<times> node) list" where
  "putEntry ds w = AList.update (fst w) (File (snd w)) ds"

definition docWrites :: "langVersions \<Rightarrow> (string \<times> string) list" where
  "docWrites lv = map (\<lambda>v. (fst v @ ''.md'', content (snd v))) lv"

definition mediaWrites :: "node \<Rightarrow> langVersions \<Rightarrow> (string \<times> string) list" where
  "mediaWrites t lv = map (\<lambda>m. (fst m, fileAt t (snd m))) (firstSources (allMedia lv) [])"

definition stagedEntries :: "node \<Rightarrow> langVersions \<Rightarrow> (string \<times> node) list \<Rightarrow> (string \<times> node) list" where
  "stagedEntries t lv ds = foldl putEntry ds (docWrites lv @ mediaWrites t lv)"

text \<open>What the staging loop needs of the collected items: no slug twice, no item without
  a document, and every media source below a root entry other than the staging directory.\<close>

definition stageable :: "projects \<Rightarrow> bool" where
  "stageable ps =
     (distinct (map fst ps)
      \<and> (\<forall>p \<in> set ps. snd p \<noteq> []
            \<and> (\<forall>m \<in> set (allMedia (snd p)). \<exists>l q. snd m = l # q \<and> l \<noteq> ''_new_structure'')))"

text \<open>
  \<open>docOf recode t lang slug d\<close>: \<open>d\<close> is what the collector records for the folder
  \<^verbatim>\<open>{lang}/{slug}\<close> of the tree \<open>t\<close>, which holds the document \<^verbatim>\<open>index.md\<close>.
  \<open>collectedFrom recode t q ps\<close>: the collected items \<open>ps\<close> have distinct slugs, each at
  least one language, the languages of an item in the order of the list \<open>q\<close>, and each
  language version is the record of its folder.
\<close>

definition docOf :: "codec \<Rightarrow> node \<Rightarrow> string \<Rightarrow> string \<Rightarrow> doc \<Rightarrow> bool" where
  "docOf recode t lang slug d =
     (\<exists>entries c. nodeAt [lang, slug] t = Some (Dir entries)
        \<and> map_of entries ''index.md'' = Some (File c)
        \<and> d = \<lparr>content = recode c,
                files = filter (\<lambda>f. f \<noteq> ''index.md'') (map fst entries),
                sourcePath = [lang, slug]\<rparr>)"

definition collectedFrom :: "codec \<Rightarrow> node \<Rightarrow> string list \<Rightarrow> projects \<Rightarrow> bool" where
  "collectedFrom recode t q ps =
     (distinct (map fst ps)
      \<and> (\<forall>p \<in> set ps. snd p \<noteq> []
            \<and> map fst (snd p) = filter (\<lambda>l. l \<in> fst ` set (snd p)) q
            \<and> (\<forall>v \<in> set (snd p). docOf recode t (fst v) (fst p) (snd v))))"

text \<open>
  \<open>migrated recode t fl ls ps t'\<close>: on the well-formed content root \<open>t\<close>, with the script
  of faults \<open>fl\<close>, a live run of \<^verbatim>\<open>main\<close> detects the languages \<open>ls\<close>, collects the items
  \<open>ps\<close>, runs to its end (\<^verbatim>\<open>MIGRATION COMPLETE\<close>) and leaves the content root \<open>t'\<close>.
\<close>

definition migrated :: "codec \<Rightarrow> node \<Rightarrow> bool list \<Rightarrow> string list \<Rightarrow> projects \<Rightarrow> node \<Rightarrow> bool" where
  "migrated recode t fl ls ps t' =
     (wellFormed t
      \<and> detectLanguages (Some t) = Inr ls
      \<and> collectProjects recode ls t = Inr ps
      \<and> (\<exists>fl'. main recode False (Some t) fl = (Inr MigrationComplete, Some t', fl')))"

section \<open>Dry run\<close>

lemma forEach_succeed: "(\<And>x. body x = succeed ()) \<Longrightarrow> forEach xs body = succeed ()"
  by (induction xs) (auto simp: andThen_def succeed_def fun_eq_iff)

lemma copyMedia_dry: "copyMedia True d ms copied = succeed ()"
  by (induction ms arbitrary: copied) (auto simp: unlessDry_def andThen_def succeed_def fun_eq_iff)

lemma stageProject_dry: "stageProject True p = succeed ()"
  by (simp add: stageProject_def unlessDry_def writeVersion_def forEach_succeed copyMedia_dry
      andThen_def succeed_def fun_eq_iff)

lemma staging_dry: "staging True ps = succeed ()"
  by (simp add: staging_def unlessDry_def forEach_succeed stageProject_dry andThen_def
      succeed_def fun_eq_iff)

text \<open>
  C5. In dry-run mode \<^verbatim>\<open>migrate\<close> returns with the state it was given: the tree is the
  same, and the script of faults is the same too, so not one writing call was made
  (such a call would have taken an entry of the script). The same holds for the whole
  of \<^verbatim>\<open>main\<close>, whose other steps only read.
\<close>

theorem migrate_dry_run_no_mutation:
  "migrate True languages ps s = (Inr DryRunComplete, s)
   \<and> snd (main recode True w fl) = (w, fl)"
proof -
  have m: "\<And>s. migrate True languages ps s = (Inr DryRunComplete, s)" for languages ps
    by (simp add: migrate_def staging_dry andThen_def succeed_def)
  show ?thesis
    by (simp add: m main_def split: sum.splits option.splits)
qed

section \<open>Layout detection\<close>

text \<open>
  C8. With no content root, \<^verbatim>\<open>detectLanguages\<close> fails with \<open>LayoutNotFound\<close> and the run
  ends there, the world unchanged. With a content root none of whose subdirectories
  has an immediate subdirectory that holds \<^verbatim>\<open>index.md\<close>, it returns the empty list, and
  the run ends with nothing written: the tree and the script of faults are as before,
  whatever the script is.
\<close>

theorem detect_layout:
  "detectLanguages None = Inl LayoutNotFound
   \<and> main recode dryRun None fl = (Inl LayoutNotFound, None, fl)
   \<and> ((\<forall>name subs d entries. (name, Dir subs) \<in> set es \<longrightarrow> (d, Dir entries) \<in> set subs
          \<longrightarrow> ''index.md'' \<notin> fst ` set entries)
        \<longrightarrow> detectLanguages (Some (Dir es)) = Inr []
          \<and> main recode dryRun (Some (Dir es)) fl = (Inr NothingToMigrate, Some (Dir es), fl))"
proof -
  have a: "detectLanguages None = Inl LayoutNotFound"
    by (simp add: detectLanguages_def)
  have b: "main recode dryRun None fl = (Inl LayoutNotFound, None, fl)"
    by (simp add: main_def a)
  have c: "detectLanguages (Some (Dir es)) = Inr []"
    if h: "\<forall>name subs d entries. (name, Dir subs) \<in> set es \<longrightarrow> (d, Dir entries) \<in> set subs
          \<longrightarrow> ''index.md'' \<notin> fst ` set entries"
  proof -
    have "\<not> looksLikeLanguage n" if "(name, n) \<in> set es" for name n
    proof (cases n)
      case (File c)
      then show ?thesis by (simp add: looksLikeLanguage_def)
    next
      case (Dir subs)
      have "\<not> (isDirectory m \<and> existsSync [''index.md''] m)" if "(d, m) \<in> set subs" for d m
      proof (cases m)
        case (File c)
        then show ?thesis by (simp add: isDirectory_def)
      next
        case (Dir entries)
        with h \<open>(name, n) \<in> set es\<close> \<open>n = Dir subs\<close> that
        have "''index.md'' \<notin> fst ` set entries" by blast
        then have "map_of entries ''index.md'' = None"
          by (simp add: map_of_eq_None_iff)
        then show ?thesis using Dir by (simp add: existsSync_def)
      qed
      then show ?thesis using Dir
        by (auto simp: looksLikeLanguage_def list_ex_iff)
    qed
    then have "filter (\<lambda>(name, n). isDirectory n \<and> looksLikeLanguage n) es = []"
      by (auto simp: filter_empty_conv)
    then show ?thesis
      by (simp add: detectLanguages_def readdirSync_def)
  qed
  show ?thesis using a b c by (auto simp: main_def)
qed

text \<open>An already migrated tree: one item directory with its two documents and a picture.\<close>

theorem detect_layout_witness:
  "detectLanguages (Some (Dir [(''setup-ssh'',
       Dir [(''en.md'', File ''a''), (''ru.md'', File ''b''), (''diagram.png'', File ''c'')])])) = Inr []
   \<and> main (\<lambda>b. b) False (Some (Dir [(''setup-ssh'',
       Dir [(''en.md'', File ''a''), (''ru.md'', File ''b''), (''diagram.png'', File ''c'')])])) [True]
     = (Inr NothingToMigrate, Some (Dir [(''setup-ssh'',
       Dir [(''en.md'', File ''a''), (''ru.md'', File ''b''), (''diagram.png'', File ''c'')])]), [True])"
  using detect_layout [where es = "[(''setup-ssh'',
       Dir [(''en.md'', File ''a''), (''ru.md'', File ''b''), (''diagram.png'', File ''c'')])]"
       and recode = "\<lambda>b. b" and dryRun = False and fl = "[True]"]
  by simp

section \<open>Translation tables\<close>

lemma addTranslation_keys:
  "fst ` set (addTranslation fm rc languages slug tr e) \<subseteq> fst ` set tr \<union> set languages"
  by (auto simp: addTranslation_def AList.dom_update)

lemma foldl_addTranslation_keys:
  "fst ` set (foldl (addTranslation fm rc languages slug) tr es) \<subseteq> fst ` set tr \<union> set languages"
proof (induction es arbitrary: tr)
  case Nil
  then show ?case by simp
next
  case (Cons e es)
  show ?case using Cons.IH [of "addTranslation fm rc languages slug tr e"]
      addTranslation_keys [of fm rc languages slug tr e]
    by auto
qed

lemma translationsIn_keys:
  "translationsIn fm rc languages root slug = Inr tr \<Longrightarrow> fst ` set tr \<subseteq> set languages"
  using foldl_addTranslation_keys [of fm rc languages slug "[]"]
  by (auto simp: translationsIn_def split: if_splits option.splits sum.splits)

lemma addTranslation_distinct:
  "distinct (map fst tr) \<Longrightarrow> distinct (map fst (addTranslation fm rc languages slug tr e))"
  by (simp add: addTranslation_def AList.distinct_update)

lemma foldl_addTranslation_distinct:
  "distinct (map fst tr) \<Longrightarrow> distinct (map fst (foldl (addTranslation fm rc languages slug) tr es))"
  by (induction es arbitrary: tr) (simp_all add: addTranslation_distinct)

lemma translationsIn_distinct:
  "translationsIn fm rc languages root slug = Inr tr \<Longrightarrow> distinct (map fst tr)"
  using foldl_addTranslation_distinct [of "[]" fm rc languages slug]
  by (auto simp: translationsIn_def split: if_splits option.splits sum.splits)

section \<open>The single-language guard\<close>

lemma few_keys_short:
  assumes "distinct (map fst tr)" "card (fst ` set tr) < 2"
  shows "length tr \<le> 1"
proof -
  have "card (fst ` set tr) = length (map fst tr)"
    using assms(1) distinct_card [of "map fst tr"] by simp
  then show ?thesis using assms(2) by simp
qed

text \<open>
  C9. For a post or a project whose translation table has fewer than two languages,
  \<^verbatim>\<open>generateLanguageSwitcher\<close> returns the empty string, whatever the configured
  languages and the current language are. (\<open>s\<close> is the slug the table is looked up
  with, \<^verbatim>\<open>folderSlug || slug\<close>.)
\<close>

theorem switcher_single_language_guard:
  "(type = ''post'' \<and> getPostTranslations fm rc cfg s = Inr tr
      \<or> type = ''project'' \<and> getProjectTranslations fm rc cfg s = Inr tr)
   \<Longrightarrow> orElse folderSlug slug = Some s
   \<Longrightarrow> card (fst ` set tr) < 2
   \<Longrightarrow> generateLanguageSwitcher cv fm rc up cfg currentLang slug type folderSlug = Inr ''''"
proof -
  assume a: "type = ''post'' \<and> getPostTranslations fm rc cfg s = Inr tr
      \<or> type = ''project'' \<and> getProjectTranslations fm rc cfg s = Inr tr"
    and b: "orElse folderSlug slug = Some s" and c: "card (fst ` set tr) < 2"
  from a have "distinct (map fst tr)"
    using translationsIn_distinct
    unfolding getPostTranslations_def getProjectTranslations_def by blast
  then have "length tr \<le> 1" using c by (rule few_keys_short)
  then have r: "renderSwitcher cv up d currentLang slug ty tr (map fst tr) = Inr ''''" for d ty
    by (simp add: renderSwitcher_def)
  from a show ?thesis
    by (auto simp: generateLanguageSwitcher_def lookupTranslations_def b r)
qed

text \<open>The specification's example: translations \<^verbatim>\<open>{en: "only-one"}\<close> with three
  configured languages.\<close>

theorem switcher_single_language_guard_witness:
  "generateLanguageSwitcher (\<lambda>v. Inl TypeError) (\<lambda>c. None) (\<lambda>b. b) (\<lambda>l. l)
     \<lparr>configLanguages = [''en'', ''ru'', ''de''],
      postsRoot = Some (Dir [(''only-one'', Dir [(''en.md'', File ''a'')])]),
      projectsRoot = None\<rparr> ''en'' (Some ''only-one'') ''post'' (Some ''only-one'') = Inr ''''"
proof -
  have h1: "getPostTranslations (\<lambda>c. None) (\<lambda>b. b)
     \<lparr>configLanguages = [''en'', ''ru'', ''de''],
      postsRoot = Some (Dir [(''only-one'', Dir [(''en.md'', File ''a'')])]),
      projectsRoot = None\<rparr> ''only-one'' = Inr [(''en'', Str ''only-one'')]"
    by code_simp
  have h2: "orElse (Some ''only-one'') (Some ''only-one'') = Some ''only-one''"
    by (simp add: orElse_def)
  have h3: "card (fst ` set [(''en'', Str ''only-one'')]) < 2" by simp
  show ?thesis
    using switcher_single_language_guard [OF _ h2 h3, where type = "''post''"] h1 by blast
qed

section \<open>The language code of a file name\<close>

text \<open>\<^verbatim>\<open>file.replace('.md', '')\<close> removes the first \<^verbatim>\<open>.md\<close> of the name, not its extension.
  The two agree on the names whose result has no \<^verbatim>\<open>.md\<close> in it.\<close>


lemma sublist_Cons_right_md:
  "\<not> sublist ''.md'' (c # cs) \<Longrightarrow> \<not> sublist ''.md'' cs"
  by (meson sublist_Cons_right)

lemma md_split: "xs @ r = ''.md'' \<Longrightarrow> xs = [] \<or> xs = ''.'' \<or> xs = ''.m'' \<or> xs = ''.md''"
  by (auto simp: append_eq_Cons_conv)

lemma md_suffixes: "suffix xs ''.md'' \<Longrightarrow> xs = [] \<or> xs = ''d'' \<or> xs = ''md'' \<or> xs = ''.md''"
  by (auto simp: suffix_Cons)

lemma md_prefixes: "prefix xs ''.md'' \<Longrightarrow> xs = [] \<or> xs = ''.'' \<or> xs = ''.m'' \<or> xs = ''.md''"
  by (auto simp: prefix_Cons)

lemma suffix_md_append:
  assumes "suffix ''.md'' (''.md'' @ r)" "r \<noteq> []"
  shows "suffix ''.md'' r"
proof -
  from assms(1) consider "suffix ''.md'' r" | xs where "''.md'' = xs @ r" "suffix xs ''.md''"
    using suffix_append [of "''.md''" "''.md''" r] by blast
  then show ?thesis
  proof cases
    case 1
    then show ?thesis .
  next
    case 2
    from 2(1) have "xs = [] \<or> xs = ''.'' \<or> xs = ''.m'' \<or> xs = ''.md''"
      using md_split [of xs r] by simp
    moreover from 2(2) have "xs = [] \<or> xs = ''d'' \<or> xs = ''md'' \<or> xs = ''.md''"
      by (rule md_suffixes)
    ultimately have "xs = [] \<or> xs = ''.md''" by auto
    with 2(1) assms(2) have "r = ''.md''" by auto
    then show ?thesis by simp
  qed
qed

lemma prefix_md_append:
  assumes "prefix ''.md'' (ls @ ''.md'')" "ls \<noteq> []"
  shows "prefix ''.md'' ls"
proof -
  from assms(1) consider "prefix ''.md'' ls" | xs where "''.md'' = ls @ xs" "prefix xs ''.md''"
    using prefix_append [of "''.md''" ls "''.md''"] by blast
  then show ?thesis
  proof cases
    case 1
    then show ?thesis .
  next
    case 2
    from 2(1) have "ls = [] \<or> ls = ''.'' \<or> ls = ''.m'' \<or> ls = ''.md''"
      using md_split [of ls xs] by simp
    moreover have "xs = [] \<or> xs = ''.'' \<or> xs = ''.m'' \<or> xs = ''.md''"
      using 2(2) by (rule md_prefixes)
    ultimately have "ls = ''.md''" using 2(1) assms(2) by auto
    then show ?thesis by simp
  qed
qed

lemma replaceFirst_append_md:
  "\<not> sublist ''.md'' lang \<Longrightarrow> replaceFirst ''.md'' '''' (lang @ ''.md'') = lang"
proof (induction lang)
  case Nil
  then show ?case by simp
next
  case (Cons l ls)
  have ns: "\<not> sublist ''.md'' ls" using Cons.prems by (rule sublist_Cons_right_md)
  have np: "\<not> prefix ''.md'' ((l # ls) @ ''.md'')"
  proof
    assume "prefix ''.md'' ((l # ls) @ ''.md'')"
    then have "prefix ''.md'' (l # ls)" by (rule prefix_md_append) simp
    then have "sublist ''.md'' (l # ls)" by (rule prefix_imp_sublist)
    with Cons.prems show False by simp
  qed
  have "replaceFirst ''.md'' '''' ((l # ls) @ ''.md'') = l # replaceFirst ''.md'' '''' (ls @ ''.md'')"
    using np by (simp only: append_Cons replaceFirst.simps if_False)
  then show ?case using Cons.IH [OF ns] by simp
qed

lemma replaceFirst_md_inverse:
  "suffix ''.md'' f \<Longrightarrow> \<not> sublist ''.md'' (replaceFirst ''.md'' '''' f)
     \<Longrightarrow> f = replaceFirst ''.md'' '''' f @ ''.md''"
proof (induction f)
  case Nil
  then show ?case by simp
next
  case (Cons c cs)
  show ?case
  proof (cases "prefix ''.md'' (c # cs)")
    case True
    then obtain r where r: "c # cs = ''.md'' @ r" by (auto simp: prefix_def)
    have rf: "replaceFirst ''.md'' '''' (c # cs) = r"
      using True r by (simp only: replaceFirst.simps if_True) simp
    have "r = []"
    proof (rule ccontr)
      assume "r \<noteq> []"
      from Cons.prems(1) r have "suffix ''.md'' (''.md'' @ r)" by simp
      then have "suffix ''.md'' r" using \<open>r \<noteq> []\<close> by (rule suffix_md_append)
      then have "sublist ''.md'' r" by (rule suffix_imp_sublist)
      with Cons.prems(2) rf show False by simp
    qed
    with r rf show ?thesis by simp
  next
    case False
    then have rf: "replaceFirst ''.md'' '''' (c # cs) = c # replaceFirst ''.md'' '''' cs"
      by (simp only: replaceFirst.simps if_False)
    have "c # cs \<noteq> ''.md''" using False by auto
    with Cons.prems(1) have s: "suffix ''.md'' cs"
      by (auto simp: suffix_Cons)
    have "\<not> sublist ''.md'' (replaceFirst ''.md'' '''' cs)"
      using Cons.prems(2) rf sublist_Cons_right_md by simp
    from Cons.IH [OF s this] rf show ?thesis by simp
  qed
qed


section \<open>What the resolver returns for a language\<close>

lemma nodeAt_append:
  "nodeAt (p @ q) t = (case nodeAt p t of None \<Rightarrow> None | Some n \<Rightarrow> nodeAt q n)"
  by (induction p t rule: nodeAt.induct) (auto split: option.splits)

lemma addTranslation_other:
  assumes "\<not> sublist ''.md'' lang" "fst e \<noteq> lang @ ''.md''"
  shows "map_of (addTranslation fm rc languages slug tr e) lang = map_of tr lang"
proof (cases "endsWith (fst e) ''.md'' \<and> replaceFirst ''.md'' '''' (fst e) = lang")
  case True
  then have "fst e = lang @ ''.md''"
    using replaceFirst_md_inverse [of "fst e"] assms(1) by (simp add: endsWith_def)
  with assms(2) show ?thesis by simp
next
  case False
  then show ?thesis
    by (auto simp: addTranslation_def AList.update_conv')
qed

lemma addTranslation_this:
  assumes "\<not> sublist ''.md'' lang" "lang \<in> set languages"
  shows "map_of (addTranslation fm rc languages slug tr (lang @ ''.md'', n)) lang
           = Some (publicSlug fm rc slug n)"
proof -
  have "suffix ''.md'' (lang @ ''.md'')" by (rule suffixI) (rule refl)
  then have "endsWith (lang @ ''.md'') ''.md''" by (simp only: endsWith_def)
  then show ?thesis
    using assms replaceFirst_append_md [of lang]
    by (simp add: addTranslation_def AList.update_conv')
qed

lemma foldl_addTranslation_absent:
  assumes "\<not> sublist ''.md'' lang" "lang @ ''.md'' \<notin> fst ` set es"
  shows "map_of (foldl (addTranslation fm rc languages slug) tr es) lang = map_of tr lang"
  using assms(2)
proof (induction es arbitrary: tr)
  case Nil
  then show ?case by simp
next
  case (Cons e es)
  then have "fst e \<noteq> lang @ ''.md''" "lang @ ''.md'' \<notin> fst ` set es" by auto
  then show ?case
    using Cons.IH [of "addTranslation fm rc languages slug tr e"]
      addTranslation_other [OF assms(1), of e fm rc languages slug tr]
    by simp
qed

lemma foldl_addTranslation_lookup:
  assumes "\<not> sublist ''.md'' lang" "lang \<in> set languages" "distinct (map fst es)"
  shows "map_of (foldl (addTranslation fm rc languages slug) tr es) lang
           = (case map_of es (lang @ ''.md'') of
                None \<Rightarrow> map_of tr lang
              | Some n \<Rightarrow> Some (publicSlug fm rc slug n))"
  using assms(3)
proof (induction es arbitrary: tr)
  case Nil
  then show ?case by simp
next
  case (Cons e es)
  obtain f n where e: "e = (f, n)" by (cases e)
  from Cons.prems have d: "distinct (map fst es)" and nf: "f \<notin> fst ` set es"
    using e by auto
  show ?case
  proof (cases "f = lang @ ''.md''")
    case True
    with nf have "lang @ ''.md'' \<notin> fst ` set es" by simp
    from foldl_addTranslation_absent [OF assms(1) this]
    show ?thesis using True e addTranslation_this [OF assms(1,2)] by simp
  next
    case False
    then have "fst e \<noteq> lang @ ''.md''"
      "map_of es (lang @ ''.md'') = map_of (e # es) (lang @ ''.md'')"
      using e by auto
    then show ?thesis
      using Cons.IH [OF d, of "addTranslation fm rc languages slug tr e"]
        addTranslation_other [OF assms(1), of e fm rc languages slug tr]
      by (simp del: map_of.simps split: option.splits)
  qed
qed

lemma translationsIn_lookup:
  assumes "\<not> sublist ''.md'' lang" "lang \<in> set languages"
    and "nodeAt (slugDir folderSlug) t = Some (Dir entries)" "distinct (map fst entries)"
  shows "\<exists>tr. translationsIn fm rc languages (Some t) folderSlug = Inr tr
           \<and> map_of tr lang = map_option (publicSlug fm rc folderSlug)
                 (nodeAt (slugDir folderSlug @ [lang @ ''.md'']) t)"
proof -
  have ne: "languages \<noteq> []" using assms(2) by auto
  have "nodeAt (slugDir folderSlug @ [lang @ ''.md'']) t = map_of entries (lang @ ''.md'')"
    using assms(3) by (simp add: nodeAt_append split: option.splits)
  then show ?thesis
    using foldl_addTranslation_lookup [OF assms(1,2,4), of fm rc folderSlug "[]"] ne assms(3)
    by (simp add: translationsIn_def existsSync_def readdirSync_def split: option.splits)
qed

text \<open>
  C6, as the claim states it, fails. First call: with the configured language \<^verbatim>\<open>x.mdy\<close>
  and an item directory that holds \<^verbatim>\<open>x.mdy.md\<close>, the document of that language exists,
  but the loop takes the file for the language \<^verbatim>\<open>xy.md\<close> and the table stays empty.
  Second and third call: the front matter of \<^verbatim>\<open>en.md\<close> declares the slug \<^verbatim>\<open>''\<close>, then
  the slug \<^verbatim>\<open>0\<close>, which \<^verbatim>\<open>attributes.slug || folderSlug\<close> takes for none: the value is
  the folder slug.
\<close>

theorem translations_resolved_counterexample:
  "getPostTranslations (\<lambda>c. None) (\<lambda>b. b)
     \<lparr>configLanguages = [''en'', ''x.mdy''],
      postsRoot = Some (Dir [(''setup-ssh'', Dir [(''x.mdy.md'', File ''a'')])]),
      projectsRoot = None\<rparr> ''setup-ssh'' = Inr []
   \<and> ''x.mdy'' \<in> set [''en'', ''x.mdy'']
   \<and> existsSync [''setup-ssh'', ''x.mdy'' @ ''.md'']
        (Dir [(''setup-ssh'', Dir [(''x.mdy.md'', File ''a'')])])
   \<and> getPostTranslations (\<lambda>c. Some (\<lambda>k. if k = ''slug'' then Str [] else Undefined)) (\<lambda>b. b)
     \<lparr>configLanguages = [''en'', ''ru''],
      postsRoot = Some (Dir [(''setup-ssh'', Dir [(''en.md'', File ''a'')])]),
      projectsRoot = None\<rparr> ''setup-ssh'' = Inr [(''en'', Str ''setup-ssh'')]
   \<and> getPostTranslations
       (\<lambda>c. Some (\<lambda>k. if k = ''slug'' then Number (Finite 0 0) else Undefined)) (\<lambda>b. b)
     \<lparr>configLanguages = [''en'', ''ru''],
      postsRoot = Some (Dir [(''setup-ssh'', Dir [(''en.md'', File ''a'')])]),
      projectsRoot = None\<rparr> ''setup-ssh'' = Inr [(''en'', Str ''setup-ssh'')]"
  by code_simp

text \<open>
  C6, amended. The resolver returns the empty table when the content root or the item
  directory does not exist. When the item directory is a directory, then for each
  configured language whose code has no \<^verbatim>\<open>.md\<close> in it: the language is a key of the
  returned table exactly when \<^verbatim>\<open>{folderSlug}/{lang}.md\<close> exists. Its value is then the
  \<^verbatim>\<open>slug\<close> of the front matter of that document when there is one that is not
  \<^verbatim>\<open>undefined\<close>, \<^verbatim>\<open>null\<close>, \<^verbatim>\<open>false\<close>, \<^verbatim>\<open>NaN\<close>, the empty string or zero; and the folder
  slug when the slug is one of these, when the front matter cannot be parsed, and when
  \<^verbatim>\<open>{lang}.md\<close> is a directory.
\<close>

theorem translations_resolved:
  assumes "get = getPostTranslations fm rc cfg \<and> root = postsRoot cfg
         \<or> get = getProjectTranslations fm rc cfg \<and> root = projectsRoot cfg"
  shows "((root = None \<or> (\<exists>t. root = Some t \<and> \<not> existsSync (slugDir folderSlug) t))
           \<longrightarrow> get folderSlug = Inr [])
       \<and> (root = Some t \<and> nodeAt (slugDir folderSlug) t = Some (Dir entries)
            \<and> distinct (map fst entries)
            \<and> lang \<in> set (configLanguages cfg) \<and> \<not> sublist ''.md'' lang
          \<longrightarrow> (\<exists>tr. get folderSlug = Inr tr
               \<and> (lang \<in> fst ` set tr \<longleftrightarrow> existsSync (slugDir folderSlug @ [lang @ ''.md'']) t)
               \<and> (\<forall>c attrs. nodeAt (slugDir folderSlug @ [lang @ ''.md'']) t = Some (File c)
                       \<and> fm (rc c) = Some attrs \<longrightarrow>
                     map_of tr lang =
                       Some (if attrs ''slug'' \<in> {Undefined, Null, Boolean False, Number NaN, Str []}
                                \<or> (\<exists>e. attrs ''slug'' = Number (Finite 0 e))
                             then Str folderSlug else attrs ''slug''))
               \<and> (\<forall>c. nodeAt (slugDir folderSlug @ [lang @ ''.md'']) t = Some (File c)
                       \<and> fm (rc c) = None \<longrightarrow> map_of tr lang = Some (Str folderSlug))
               \<and> (\<forall>es. nodeAt (slugDir folderSlug @ [lang @ ''.md'']) t = Some (Dir es)
                       \<longrightarrow> map_of tr lang = Some (Str folderSlug))))"
proof (intro conjI impI)
  have g: "get folderSlug = translationsIn fm rc (configLanguages cfg) root folderSlug"
    using assms by (auto simp: getPostTranslations_def getProjectTranslations_def)
  show "get folderSlug = Inr []"
    if "root = None \<or> (\<exists>t. root = Some t \<and> \<not> existsSync (slugDir folderSlug) t)"
    using that by (auto simp: g translationsIn_def)
  assume a: "root = Some t \<and> nodeAt (slugDir folderSlug) t = Some (Dir entries)
            \<and> distinct (map fst entries)
            \<and> lang \<in> set (configLanguages cfg) \<and> \<not> sublist ''.md'' lang"
  then have a1: "root = Some t" and a2: "nodeAt (slugDir folderSlug) t = Some (Dir entries)"
    and a3: "distinct (map fst entries)" and a4: "lang \<in> set (configLanguages cfg)"
    and a5: "\<not> sublist ''.md'' lang" by simp_all
  let ?doc = "nodeAt (slugDir folderSlug @ [lang @ ''.md'']) t"
  from translationsIn_lookup [OF a5 a4 a2 a3, of fm rc]
  obtain tr where tr: "translationsIn fm rc (configLanguages cfg) (Some t) folderSlug = Inr tr"
    "map_of tr lang = map_option (publicSlug fm rc folderSlug) ?doc" by blast
  have k: "lang \<in> fst ` set tr \<longleftrightarrow> map_of tr lang \<noteq> None"
    by (simp add: map_of_eq_None_iff)
  have 1: "get folderSlug = Inr tr" using tr(1) by (simp add: g a1)
  have 2: "lang \<in> fst ` set tr \<longleftrightarrow> existsSync (slugDir folderSlug @ [lang @ ''.md'']) t"
    using k tr(2) by (simp add: existsSync_def)
  have truth: "truthy v \<longleftrightarrow>
      \<not> (v \<in> {Undefined, Null, Boolean False, Number NaN, Str []} \<or> (\<exists>e. v = Number (Finite 0 e)))"
    for v
  proof (cases v)
    case (Number n)
    then show ?thesis by (cases n) auto
  qed auto
  have 3: "map_of tr lang =
             Some (if attrs ''slug'' \<in> {Undefined, Null, Boolean False, Number NaN, Str []}
                      \<or> (\<exists>e. attrs ''slug'' = Number (Finite 0 e))
                   then Str folderSlug else attrs ''slug'')"
    if "?doc = Some (File c) \<and> fm (rc c) = Some attrs" for c attrs
    using that tr(2) truth [of "attrs ''slug''"] by (simp add: publicSlug_def orValue_def)
  have 4: "map_of tr lang = Some (Str folderSlug)"
    if "?doc = Some (File c) \<and> fm (rc c) = None" for c
    using that tr(2) by (simp add: publicSlug_def)
  have 5: "map_of tr lang = Some (Str folderSlug)" if "?doc = Some (Dir es)" for es
    using that tr(2) by (simp add: publicSlug_def)
  show "\<exists>tr. get folderSlug = Inr tr
               \<and> (lang \<in> fst ` set tr \<longleftrightarrow> existsSync (slugDir folderSlug @ [lang @ ''.md'']) t)
               \<and> (\<forall>c attrs. nodeAt (slugDir folderSlug @ [lang @ ''.md'']) t = Some (File c)
                       \<and> fm (rc c) = Some attrs \<longrightarrow>
                     map_of tr lang =
                       Some (if attrs ''slug'' \<in> {Undefined, Null, Boolean False, Number NaN, Str []}
                                \<or> (\<exists>e. attrs ''slug'' = Number (Finite 0 e))
                             then Str folderSlug else attrs ''slug''))
               \<and> (\<forall>c. nodeAt (slugDir folderSlug @ [lang @ ''.md'']) t = Some (File c)
                       \<and> fm (rc c) = None \<longrightarrow> map_of tr lang = Some (Str folderSlug))
               \<and> (\<forall>es. nodeAt (slugDir folderSlug @ [lang @ ''.md'']) t = Some (Dir es)
                       \<longrightarrow> map_of tr lang = Some (Str folderSlug))"
    using 1 2 3 4 5 by blast
qed

text \<open>An item with an English and a Russian document, the Russian one with its own
  slug and the English one with the slug \<^verbatim>\<open>0\<close>; German is configured and has no
  document.\<close>

theorem translations_resolved_witness:
  "\<exists>tr. getPostTranslations
          (\<lambda>c. if c = ''R'' then Some (\<lambda>k. if k = ''slug'' then Str ''nastroyka-ssh'' else Undefined)
                else Some (\<lambda>k. if k = ''slug'' then Number (Finite 0 0) else Undefined))
          (\<lambda>b. b)
          \<lparr>configLanguages = [''en'', ''ru'', ''de''],
           postsRoot = Some (Dir [(''setup-ssh'',
             Dir [(''en.md'', File ''E''), (''ru.md'', File ''R''), (''diagram.png'', File ''P'')])]),
           projectsRoot = None\<rparr> ''setup-ssh'' = Inr tr
        \<and> ''ru'' \<in> fst ` set tr \<and> map_of tr ''ru'' = Some (Str ''nastroyka-ssh'')
        \<and> map_of tr ''en'' = Some (Str ''setup-ssh'')
        \<and> ''de'' \<notin> fst ` set tr"
proof -
  let ?R = "\<lambda>k. if k = ''slug'' then Str ''nastroyka-ssh'' else Undefined"
  let ?E = "\<lambda>k. if k = ''slug'' then Number (Finite 0 0) else Undefined"
  let ?fm = "\<lambda>c. if c = ''R'' then Some ?R else Some ?E"
  let ?item = "[(''en.md'', File ''E''), (''ru.md'', File ''R''), (''diagram.png'', File ''P'')]"
  let ?t = "Dir [(''setup-ssh'', Dir ?item)]"
  let ?cfg = "\<lparr>configLanguages = [''en'', ''ru'', ''de''], postsRoot = Some ?t, projectsRoot = None\<rparr>"
  let ?get = "getPostTranslations ?fm (\<lambda>b. b) ?cfg"
  have h0: "?get = getPostTranslations ?fm (\<lambda>b. b) ?cfg \<and> postsRoot ?cfg = postsRoot ?cfg
          \<or> ?get = getProjectTranslations ?fm (\<lambda>b. b) ?cfg \<and> postsRoot ?cfg = projectsRoot ?cfg"
    by simp
  have d: "nodeAt (slugDir ''setup-ssh'') ?t = Some (Dir ?item)" by code_simp
  have en: "\<not> sublist ''.md'' ''en''" by code_simp
  have ru: "\<not> sublist ''.md'' ''ru''" by code_simp
  have de: "\<not> sublist ''.md'' ''de''" by code_simp
  have eru: "existsSync (slugDir ''setup-ssh'' @ [''ru'' @ ''.md'']) ?t" by code_simp
  have nru: "nodeAt (slugDir ''setup-ssh'' @ [''ru'' @ ''.md'']) ?t = Some (File ''R'')" by code_simp
  have nen: "nodeAt (slugDir ''setup-ssh'' @ [''en'' @ ''.md'']) ?t = Some (File ''E'')" by code_simp
  have ede: "\<not> existsSync (slugDir ''setup-ssh'' @ [''de'' @ ''.md'']) ?t" by code_simp
  have fR: "?fm ''R'' = Some ?R" by simp
  have fE: "?fm ''E'' = Some ?E" by simp
  from translations_resolved [OF h0, where folderSlug = "''setup-ssh''" and t = ?t
      and entries = ?item and lang = "''ru''"] d ru
  obtain tr where tr: "?get ''setup-ssh'' = Inr tr"
    "''ru'' \<in> fst ` set tr \<longleftrightarrow> existsSync (slugDir ''setup-ssh'' @ [''ru'' @ ''.md'']) ?t"
    "\<forall>c attrs. nodeAt (slugDir ''setup-ssh'' @ [''ru'' @ ''.md'']) ?t = Some (File c)
                       \<and> ?fm c = Some attrs \<longrightarrow>
                     map_of tr ''ru'' =
                       Some (if attrs ''slug'' \<in> {Undefined, Null, Boolean False, Number NaN, Str []}
                                \<or> (\<exists>e. attrs ''slug'' = Number (Finite 0 e))
                             then Str ''setup-ssh'' else attrs ''slug'')"
    by auto
  from tr(3) nru fR have "map_of tr ''ru'' =
      Some (if ?R ''slug'' \<in> {Undefined, Null, Boolean False, Number NaN, Str []}
               \<or> (\<exists>e. ?R ''slug'' = Number (Finite 0 e))
            then Str ''setup-ssh'' else ?R ''slug'')"
    by blast
  then have vru: "map_of tr ''ru'' = Some (Str ''nastroyka-ssh'')" by simp
  from translations_resolved [OF h0, where folderSlug = "''setup-ssh''" and t = ?t
      and entries = ?item and lang = "''en''"] d en tr(1)
  have "\<forall>c attrs. nodeAt (slugDir ''setup-ssh'' @ [''en'' @ ''.md'']) ?t = Some (File c)
                       \<and> ?fm c = Some attrs \<longrightarrow>
                     map_of tr ''en'' =
                       Some (if attrs ''slug'' \<in> {Undefined, Null, Boolean False, Number NaN, Str []}
                                \<or> (\<exists>e. attrs ''slug'' = Number (Finite 0 e))
                             then Str ''setup-ssh'' else attrs ''slug'')"
    by auto
  with nen fE have "map_of tr ''en'' =
      Some (if ?E ''slug'' \<in> {Undefined, Null, Boolean False, Number NaN, Str []}
               \<or> (\<exists>e. ?E ''slug'' = Number (Finite 0 e))
            then Str ''setup-ssh'' else ?E ''slug'')"
    by blast
  then have ven: "map_of tr ''en'' = Some (Str ''setup-ssh'')" by simp
  from translations_resolved [OF h0, where folderSlug = "''setup-ssh''" and t = ?t
      and entries = ?item and lang = "''de''"] d de tr(1)
  have "''de'' \<in> fst ` set tr \<longleftrightarrow> existsSync (slugDir ''setup-ssh'' @ [''de'' @ ''.md'']) ?t"
    by auto
  with ede have "''de'' \<notin> fst ` set tr" by simp
  moreover have "''ru'' \<in> fst ` set tr" using tr(2) eru by simp
  ultimately show ?thesis using tr(1) vru ven by blast
qed
section \<open>Files that are no documents of a configured language\<close>







section \<open>The entries of the switcher\<close>

lemma publicSlug_value: "publicSlug fm rc s n = Str s \<or> truthy (publicSlug fm rc s n)"
  by (auto simp: publicSlug_def orValue_def split: node.splits option.splits)

lemma update_values: "snd ` set (AList.update k w tr) \<subseteq> insert w (snd ` set tr)"
  by (induction tr) auto

lemma addTranslation_cases:
  "addTranslation fm rc languages s tr e = tr
        \<or> addTranslation fm rc languages s tr e
            = AList.update (replaceFirst ''.md'' '''' (fst e)) (publicSlug fm rc s (snd e)) tr"
    by (simp add: addTranslation_def)

lemma addTranslation_values:
  assumes "\<forall>v \<in> snd ` set tr. v = Str s \<or> truthy v"
  shows "\<forall>v \<in> snd ` set (addTranslation fm rc languages s tr e). v = Str s \<or> truthy v"
proof
  fix v
  assume v: "v \<in> snd ` set (addTranslation fm rc languages s tr e)"
  have "v \<in> snd ` set tr \<or> v = publicSlug fm rc s (snd e)"
  proof (rule disjE [OF addTranslation_cases [of fm rc languages s tr e]])
    assume "addTranslation fm rc languages s tr e = tr"
    with v show ?thesis by simp
  next
    assume "addTranslation fm rc languages s tr e
            = AList.update (replaceFirst ''.md'' '''' (fst e)) (publicSlug fm rc s (snd e)) tr"
    with v have "v \<in> snd ` set (AList.update (replaceFirst ''.md'' '''' (fst e)) (publicSlug fm rc s (snd e)) tr)"
      by simp
    then have "v \<in> insert (publicSlug fm rc s (snd e)) (snd ` set tr)"
      using update_values by (rule rev_subsetD)
    then show ?thesis by auto
  qed
  then show "v = Str s \<or> truthy v"
  proof
    assume "v \<in> snd ` set tr"
    with assms show ?thesis by (rule bspec)
  next
    assume "v = publicSlug fm rc s (snd e)"
    then show ?thesis using publicSlug_value [of fm rc s "snd e"] by simp
  qed
qed

lemma foldl_addTranslation_values:
  "\<forall>v \<in> snd ` set tr. v = Str s \<or> truthy v \<Longrightarrow>
   \<forall>v \<in> snd ` set (foldl (addTranslation fm rc languages s) tr es). v = Str s \<or> truthy v"
proof (induction es arbitrary: tr)
  case Nil
  then show ?case by simp
next
  case (Cons e es)
  from Cons.IH [OF addTranslation_values [OF Cons.prems]] show ?case by simp
qed

lemma translationsIn_cases:
  "translationsIn fm rc languages root s = Inr tr \<Longrightarrow>
     tr = [] \<or> (\<exists>es. tr = foldl (addTranslation fm rc languages s) [] es)"
  by (auto simp: translationsIn_def split: if_splits option.splits sum.splits)

lemma translationsIn_values:
  assumes "translationsIn fm rc languages root s = Inr tr" "(k, v) \<in> set tr"
  shows "v = Str s \<or> truthy v"
proof -
  have "\<forall>v \<in> snd ` set tr. v = Str s \<or> truthy v"
    using translationsIn_cases [OF assms(1)] foldl_addTranslation_values [of "[]" s fm rc languages]
    by auto
  moreover have "v \<in> snd ` set tr" using assms(2) by force
  ultimately show ?thesis by (rule bspec)
qed

lemma mapThrowing_rows:
  "(\<And>r. r \<in> set rs \<Longrightarrow> f (fst r) = Inr (g r)) \<Longrightarrow> mapThrowing f (map fst rs) = Inr (map g rs)"
  by (induction rs) simp_all

lemma joinWith_Cons: "joinWith sep (x # xs) = x @ concat (map (\<lambda>y. sep @ y) xs)"
  by (induction xs arbitrary: x) simp_all

text \<open>
  C7. Take a post or a project whose translation table has two or more rows. A row is
  written \<open>(l, v, p)\<close> here: the language, the public slug \<open>v\<close> that the table holds for
  it, and the string \<open>p\<close> that \<open>v\<close> is printed as (\<open>v\<close> itself when it is a string). The
  switcher that \<^verbatim>\<open>generateLanguageSwitcher\<close> builds is the \<^verbatim>\<open>div\<close> of one entry for each
  row, in the order of the table, with \<^verbatim>\<open> | \<close> between two entries. The entry of the
  current language \<open>c\<close> is a \<^verbatim>\<open>span\<close> with the name of the language and no link. The
  entry of any other language is a link \<^verbatim>\<open><a href="...">\<close> whose target is
  \<^verbatim>\<open>/posts/{p}/\<close> (or \<^verbatim>\<open>/projects/{p}/\<close>) for the first configured language and
  \<^verbatim>\<open>/{l}/posts/{p}/\<close> for any other, where \<open>p\<close> is the public slug in the row of \<open>l\<close>
  itself. (\<open>s\<close> is the slug the table is looked up with, \<^verbatim>\<open>folderSlug || slug\<close>.)
\<close>

theorem switcher_entries:
  assumes "ty = ''post'' \<and> get = getPostTranslations fm rc cfg \<and> seg = ''posts''
         \<or> ty = ''project'' \<and> get = getProjectTranslations fm rc cfg \<and> seg = ''projects''"
    and "folderSlug = Some s \<and> s \<noteq> [] \<or> (folderSlug = None \<or> folderSlug = Some []) \<and> slug = Some s"
    and "get s = Inr (map (\<lambda>(l, v, p). (l, v)) (row # rows))"
    and "rows \<noteq> []"
    and "\<forall>(l, v, p) \<in> set (row # rows).
           v = Str p \<or> v = Boolean True \<and> p = ''true''
           \<or> ((\<exists>n. v = Number n) \<or> (\<exists>r. v = Object r)) \<and> cv v = Inr p"
  shows "generateLanguageSwitcher cv fm rc up cfg c slug ty folderSlug =
     (let name = (\<lambda>l. case map_of
            [(''en'', ''English''),
             (''ru'', [CHR 0xD0, CHR 0xA0, CHR 0xD1, CHR 0x83, CHR 0xD1, CHR 0x81, CHR 0xD1, CHR 0x81,
                       CHR 0xD0, CHR 0xBA, CHR 0xD0, CHR 0xB8, CHR 0xD0, CHR 0xB9]),
             (''de'', ''Deutsch''),
             (''zh'', [CHR 0xE4, CHR 0xB8, CHR 0xAD, CHR 0xE6, CHR 0x96, CHR 0x87]),
             (''es'', ''Espa'' @ [CHR 0xC3, CHR 0xB1] @ ''ol''),
             (''fr'', ''Fran'' @ [CHR 0xC3, CHR 0xA7] @ ''ais''),
             (''ja'', [CHR 0xE6, CHR 0x97, CHR 0xA5, CHR 0xE6, CHR 0x9C, CHR 0xAC, CHR 0xE8, CHR 0xAA, CHR 0x9E]),
             (''ko'', [CHR 0xED, CHR 0x95, CHR 0x9C, CHR 0xEA, CHR 0xB5, CHR 0xAD, CHR 0xEC, CHR 0x96, CHR 0xB4])]
            l of None \<Rightarrow> up l | Some n \<Rightarrow> n);
          entry = (\<lambda>(l, v, p).
            if l = c
            then ''<span class='' @ [CHR 0x22] @ ''lang-current'' @ [CHR 0x22] @ ''>'' @ name l @ ''</span>''
            else ''<a href='' @ [CHR 0x22]
                 @ ((if l = hd (configLanguages cfg) then '''' else ''/'' @ l) @ ''/'' @ seg @ ''/'' @ p @ ''/'')
                 @ [CHR 0x22] @ '' class='' @ [CHR 0x22] @ ''lang-link'' @ [CHR 0x22] @ ''>''
                 @ name l @ ''</a>'')
      in Inr (''<div class='' @ [CHR 0x22] @ ''lang-switcher'' @ [CHR 0x22] @ ''>''
              @ entry row @ concat (map (\<lambda>r. '' | '' @ entry r) rows)
              @ ''</div>''))"
proof -
  let ?ts = "row # rows"
  let ?tr = "map (\<lambda>(l, v, p). (l, v)) ?ts"
  define E where "E = (\<lambda>(l, v :: jsValue, p). if l = c then langCurrent (displayName up l)
      else langLink ((if l = hd (configLanguages cfg) then '''' else ''/'' @ l) @ ''/'' @ seg @ ''/'' @ p @ ''/'')
             (displayName up l))"
  have look: "orElse folderSlug slug = Some s" using assms(2) by (auto simp: orElse_def)
  obtain root where g: "translationsIn fm rc (configLanguages cfg) root s = Inr ?tr"
    using assms(1,3) by (auto simp: getPostTranslations_def getProjectTranslations_def)
  have d: "distinct (map fst ?tr)"
    using g by (rule translationsIn_distinct)
  have ks: "fst ` set ?tr \<subseteq> set (configLanguages cfg)"
    using g by (rule translationsIn_keys)
  have fsts: "map fst ?tr = map fst ?ts" by (simp add: case_prod_beta comp_def)
  have two: "2 \<le> length ?tr" using assms(4) by (cases rows) simp_all
  have "length ?tr = length (map fst ?tr)" by (simp only: length_map)
  also have "\<dots> = card (set (map fst ?tr))" using distinct_card [OF d] by (simp only:)
  also have "\<dots> = card (fst ` set ?tr)" by (simp only: set_map)
  also have "\<dots> \<le> card (set (configLanguages cfg))"
    using ks by (simp add: card_mono)
  also have "\<dots> \<le> length (configLanguages cfg)" by (rule card_length)
  finally have many: "\<not> length (configLanguages cfg) \<le> 1" using two by simp
  have tys: "typeToPath ty = seg" "seg \<noteq> []"
    using assms(1) by (auto simp: typeToPath_def)
  have rowE: "switcherLink cv up (hd (configLanguages cfg)) c slug ty ?tr (fst r) = Inr (E r)"
    if "r \<in> set ?ts" for r
  proof -
    obtain l v p where r: "r = (l, v, p)" by (cases r)
    have mem: "(l, v) \<in> set ?tr" using that r by force
    have tv: "v = Str s \<or> truthy v"
      using g mem by (rule translationsIn_values)
    have "map_of ?tr l = Some v" using d mem by (rule map_of_is_SomeI)
    then have own: "property ?tr l = v" by (simp add: property_def)
    from assms(5) that r
    have "v = Str p \<or> v = Boolean True \<and> p = ''true''
           \<or> ((\<exists>n. v = Number n) \<or> (\<exists>r. v = Object r)) \<and> cv v = Inr p"
      by blast
    then have printed: "toStr cv (orValue v (valueOf slug)) = Inr p"
    proof (elim disjE conjE exE)
      assume vp: "v = Str p"
      show ?thesis
      proof (cases "p = []")
        case False
        then show ?thesis by (simp add: vp orValue_def)
      next
        case True
        with tv vp have "s = []" by simp
        with look have "slug = Some []"
          by (auto simp: orElse_def split: option.splits if_splits)
        with True show ?thesis by (simp add: vp orValue_def valueOf_def)
      qed
    next
      assume "v = Boolean True" "p = ''true''"
      then show ?thesis by (simp add: orValue_def)
    next
      fix n assume "cv v = Inr p" "v = Number n"
      then show ?thesis using tv by (simp add: orValue_def)
    next
      fix x assume "cv v = Inr p" "v = Object x"
      then show ?thesis by (simp add: orValue_def)
    qed
    show ?thesis
      using own printed tys by (simp add: switcherLink_def Let_def r E_def)
  qed
  have links: "mapThrowing (switcherLink cv up (hd (configLanguages cfg)) c slug ty ?tr) (map fst ?tr)
                 = Inr (map E ?ts)"
    unfolding fsts using rowE by (rule mapThrowing_rows)
  have long: "\<not> length (map fst ?tr) \<le> 1" using assms(4) by simp
  have r: "renderSwitcher cv up (hd (configLanguages cfg)) c slug ty ?tr (map fst ?tr)
             = Inr (''<div class='' @ dq @ ''lang-switcher'' @ dq @ ''>''
                    @ E row @ concat (map (\<lambda>r. '' | '' @ E r) rows) @ ''</div>'')"
    unfolding renderSwitcher_def links using long
    by (simp add: joinWith_Cons comp_def del: joinWith.simps)
  have out: "generateLanguageSwitcher cv fm rc up cfg c slug ty folderSlug
             = Inr (''<div class='' @ dq @ ''lang-switcher'' @ dq @ ''>''
                    @ E row @ concat (map (\<lambda>r. '' | '' @ E r) rows) @ ''</div>'')"
    using assms(1)
  proof
    assume a: "ty = ''post'' \<and> get = getPostTranslations fm rc cfg \<and> seg = ''posts''"
    then have "lookupTranslations (getPostTranslations fm rc cfg) (orElse folderSlug slug) = Inr ?tr"
      using look assms(3) by (simp add: lookupTranslations_def)
    then show ?thesis using a many r by (simp add: generateLanguageSwitcher_def)
  next
    assume a: "ty = ''project'' \<and> get = getProjectTranslations fm rc cfg \<and> seg = ''projects''"
    then have "lookupTranslations (getProjectTranslations fm rc cfg) (orElse folderSlug slug) = Inr ?tr"
      using look assms(3) by (simp add: lookupTranslations_def)
    then show ?thesis using a many r by (simp add: generateLanguageSwitcher_def)
  qed
  show ?thesis
    unfolding out E_def langCurrent_def langLink_def dq_def displayName_def langNames_def Let_def
    by (rule refl)
qed

text \<open>The specification's example: translations \<^verbatim>\<open>{en: "setup-ssh", ru: "nastroyka-ssh"}\<close>
  and the current language \<^verbatim>\<open>ru\<close>. The switcher is
  \<^verbatim>\<open><div class="lang-switcher"><a href="/posts/setup-ssh/" class="lang-link">English</a> | \<close>
  followed by the \<^verbatim>\<open>span\<close> of the Russian name of Russian.\<close>

theorem switcher_entries_witness:
  "generateLanguageSwitcher (\<lambda>v. Inl TypeError)
     (\<lambda>c. if c = ''R'' then Some (\<lambda>k. if k = ''slug'' then Str ''nastroyka-ssh'' else Undefined)
           else Some (\<lambda>k. Undefined))
     (\<lambda>b. b) (\<lambda>l. l)
     \<lparr>configLanguages = [''en'', ''ru'', ''de''],
      postsRoot = Some (Dir [(''setup-ssh'',
        Dir [(''en.md'', File ''E''), (''ru.md'', File ''R''), (''diagram.png'', File ''P'')])]),
      projectsRoot = None\<rparr>
     ''ru'' (Some ''nastroyka-ssh'') ''post'' (Some ''setup-ssh'')
   = Inr (''<div class='' @ [CHR 0x22] @ ''lang-switcher'' @ [CHR 0x22] @ ''>''
          @ ''<a href='' @ [CHR 0x22] @ ''/posts/setup-ssh/'' @ [CHR 0x22]
          @ '' class='' @ [CHR 0x22] @ ''lang-link'' @ [CHR 0x22] @ ''>English</a>''
          @ '' | ''
          @ ''<span class='' @ [CHR 0x22] @ ''lang-current'' @ [CHR 0x22] @ ''>''
          @ [CHR 0xD0, CHR 0xA0, CHR 0xD1, CHR 0x83, CHR 0xD1, CHR 0x81, CHR 0xD1, CHR 0x81,
             CHR 0xD0, CHR 0xBA, CHR 0xD0, CHR 0xB8, CHR 0xD0, CHR 0xB9]
          @ ''</span>''
          @ ''</div>'')"
proof -
  let ?fm = "\<lambda>c. if c = ''R'' then Some (\<lambda>k. if k = ''slug'' then Str ''nastroyka-ssh'' else Undefined)
                else Some (\<lambda>k. Undefined)"
  let ?cfg = "\<lparr>configLanguages = [''en'', ''ru'', ''de''],
      postsRoot = Some (Dir [(''setup-ssh'',
        Dir [(''en.md'', File ''E''), (''ru.md'', File ''R''), (''diagram.png'', File ''P'')])]),
      projectsRoot = None\<rparr>"
  let ?get = "getPostTranslations ?fm (\<lambda>b. b) ?cfg"
  let ?en = "(''en'', Str ''setup-ssh'', ''setup-ssh'')"
  let ?ru = "(''ru'', Str ''nastroyka-ssh'', ''nastroyka-ssh'')"
  have h1: "''post'' = ''post'' \<and> ?get = getPostTranslations ?fm (\<lambda>b. b) ?cfg \<and> ''posts'' = ''posts''
          \<or> ''post'' = ''project'' \<and> ?get = getProjectTranslations ?fm (\<lambda>b. b) ?cfg
              \<and> ''posts'' = ''projects''"
    by simp
  have h2: "Some ''setup-ssh'' = Some ''setup-ssh'' \<and> ''setup-ssh'' \<noteq> []
          \<or> (Some ''setup-ssh'' = None \<or> Some ''setup-ssh'' = Some [])
            \<and> Some ''nastroyka-ssh'' = Some ''setup-ssh''"
    by simp
  have "?get ''setup-ssh'' = Inr [(''en'', Str ''setup-ssh''), (''ru'', Str ''nastroyka-ssh'')]"
    by code_simp
  then have h3: "?get ''setup-ssh'' = Inr (map (\<lambda>(l, v, p). (l, v)) (?en # [?ru]))"
    by simp
  have h4: "[?ru] \<noteq> []" by simp
  have h5: "\<forall>(l, v, p) \<in> set (?en # [?ru]).
           v = Str p \<or> v = Boolean True \<and> p = ''true''
           \<or> ((\<exists>n. v = Number n) \<or> (\<exists>r. v = Object r)) \<and> (\<lambda>v. Inl TypeError) v = Inr p"
    by simp
  show ?thesis
    using switcher_entries [OF h1 h2 h3 h4 h5, where up = "\<lambda>l. l" and c = "''ru''"]
    by simp
qed

section \<open>What a run can touch\<close>

lemma alter_frame:
  "alter p f t = Inr t' \<Longrightarrow> \<not> prefix p q \<Longrightarrow> \<not> prefix q p \<Longrightarrow> nodeAt q t' = nodeAt q t"
proof (induction p f t arbitrary: t' q rule: alter.induct)
  case (1 f n)
  then show ?case by simp
next
  case (2 x p f c)
  then show ?case by simp
next
  case (3 x f es)
  from "3.prems"(3) obtain z q' where q: "q = z # q'" by (cases q) auto
  with "3.prems"(2) have zx: "z \<noteq> x" by auto
  from "3.prems"(1) obtain es' where t': "t' = Dir es'" and m: "map_of es' z = map_of es z"
    using zx by (auto split: sum.splits option.splits simp: AList.update_conv' AList.delete_conv')
  show ?case by (simp add: q t' m)
next
  case (4 x y p f es)
  from "4.prems"(3) obtain z q' where q: "q = z # q'" by (cases q) auto
  from "4.prems"(1) obtain n n' where n: "map_of es x = Some n" and a: "alter (y # p) f n = Inr n'"
    and t': "t' = Dir (AList.update x n' es)"
    by (auto split: sum.splits option.splits)
  show ?case
  proof (cases "z = x")
    case False
    then show ?thesis by (simp add: q t' AList.update_conv')
  next
    case True
    with "4.prems"(2,3) q have "\<not> prefix (y # p) q'" "\<not> prefix q' (y # p)" by auto
    from "4.IH" [OF n a this] show ?thesis using True n by (simp add: q t' AList.update_conv')
  qed
qed

lemma mkdirp_frame:
  "mkdirp p t = Inr t' \<Longrightarrow> \<not> prefix q p \<Longrightarrow> nodeAt q t' = nodeAt q t"
proof (induction p t arbitrary: t' q rule: mkdirp.induct)
  case (1 es)
  then show ?case by simp
next
  case (2 c)
  then show ?case by simp
next
  case (3 x p c)
  then show ?case by simp
next
  case (4 x p es)
  from "4.prems"(2) obtain z q' where q: "q = z # q'" by (cases q) auto
  let ?child = "case map_of es x of None \<Rightarrow> Dir [] | Some n \<Rightarrow> n"
  from "4.prems"(1) obtain n' where a: "mkdirp p ?child = Inr n'"
    and t': "t' = Dir (AList.update x n' es)"
    by (auto split: sum.splits)
  show ?case
  proof (cases "z = x")
    case False
    then show ?thesis by (simp add: q t' AList.update_conv')
  next
    case True
    with "4.prems"(2) q have np: "\<not> prefix q' p" by auto
    then have ne: "q' \<noteq> []" by auto
    have "nodeAt q' n' = nodeAt q' ?child" using "4.IH" [OF a np] .
    also have "\<dots> = (case map_of es x of None \<Rightarrow> None | Some n \<Rightarrow> nodeAt q' n)"
      using ne by (cases q') (auto split: option.splits)
    finally show ?thesis using True by (simp add: q t' AList.update_conv')
  qed
qed

lemma outside_refl: "outside X s s"
  by (simp add: outside_def)

lemma outside_trans: "outside X s s' \<Longrightarrow> outside X s' s'' \<Longrightarrow> outside X s s''"
  by (simp add: outside_def)

lemma confined_succeed: "confined X (succeed x)"
  by (simp add: confined_def succeed_def outside_refl)

lemma confined_andThen:
  assumes "confined X m" "\<And>x. confined X (k x)"
  shows "confined X (andThen m k)"
proof -
  have "outside X s (snd (andThen m k s))" for s
  proof (cases "m s")
    case (Pair r s')
    have 1: "outside X s s'" using assms(1) Pair unfolding confined_def by (metis snd_conv)
    show ?thesis
    proof (cases r)
      case (Inl e)
      then show ?thesis using Pair 1 by (simp add: andThen_def)
    next
      case (Inr x)
      have "outside X s' (snd (k x s'))" using assms(2) unfolding confined_def by blast
      with 1 have "outside X s (snd (k x s'))" by (rule outside_trans)
      then show ?thesis using Pair Inr by (simp add: andThen_def)
    qed
  qed
  then show ?thesis by (simp add: confined_def)
qed

lemma confined_forEach:
  "(\<And>x. x \<in> set xs \<Longrightarrow> confined X (body x)) \<Longrightarrow> confined X (forEach xs body)"
  by (induction xs) (simp_all add: confined_succeed confined_andThen)

lemma confined_sysWrite:
  assumes "\<And>t t' y. f t = Inr t' \<Longrightarrow> y \<notin> X \<Longrightarrow> nodeAt [y] t' = nodeAt [y] t"
  shows "confined X (sysWrite f)"
  using assms
  by (auto simp: confined_def outside_def sysWrite_def split: list.splits bool.splits sum.splits)

lemma confined_mkdirSync: "x \<in> X \<Longrightarrow> confined X (mkdirSync (x # p))"
proof -
  assume x: "x \<in> X"
  have "confined X (sysWrite (mkdirp (x # p)))"
  proof (rule confined_sysWrite)
    fix t t' y assume "mkdirp (x # p) t = Inr t'" "y \<notin> X"
    then show "nodeAt [y] t' = nodeAt [y] t" using x by (intro mkdirp_frame) auto
  qed
  then show ?thesis
    unfolding mkdirSync_def [abs_def] using confined_succeed [of X "()"]
    by (simp add: confined_def)
qed

lemma confined_alter:
  assumes "x \<in> X" shows "confined X (sysWrite (alter (x # p) f))"
proof (rule confined_sysWrite)
  fix t t' y assume "alter (x # p) f t = Inr t'" "y \<notin> X"
  then show "nodeAt [y] t' = nodeAt [y] t" using assms by (intro alter_frame) auto
qed

lemma confined_writeFile: "x \<in> X \<Longrightarrow> confined X (sysWrite (writeFile (x # p) c))"
  unfolding writeFile_def [abs_def] by (rule confined_alter)

lemma confined_copyFile:
  assumes "x \<in> X" shows "confined X (sysWrite (copyFile src (x # p)))"
proof (rule confined_sysWrite)
  fix t t' y assume a: "copyFile src (x # p) t = Inr t'" "y \<notin> X"
  then obtain c where "alter (x # p) (putFile c) t = Inr t'"
    by (auto simp: copyFile_def writeFile_def split: option.splits node.splits)
  then show "nodeAt [y] t' = nodeAt [y] t" using assms a(2) by (intro alter_frame) auto
qed

lemma confined_copyFileSync: "x \<in> X \<Longrightarrow> confined X (copyFileSync src (x # y # p))"
  unfolding copyFileSync_def dirname_def
  by (intro confined_andThen) (simp_all add: confined_mkdirSync confined_copyFile)

lemma confined_unlessDry: "confined X m \<Longrightarrow> confined X (unlessDry d m)"
  by (simp add: unlessDry_def confined_succeed)

lemma confined_copyMedia:
  "confined {''_new_structure''} (copyMedia d (tempDir @ [slug]) ms copied)"
proof (induction ms arbitrary: copied)
  case Nil
  then show ?case by (simp add: confined_succeed)
next
  case (Cons m ms)
  obtain fname source where m: "m = (fname, source)" by (cases m)
  have "confined {''_new_structure''} (copyFileSync source ((tempDir @ [slug]) @ [fname]))"
    unfolding tempDir_def using confined_copyFileSync [of "''_new_structure''" _ source slug "[fname]"]
    by simp
  then show ?case using Cons.IH
    by (simp add: m confined_andThen confined_unlessDry)
qed

lemma confined_stageProject: "confined {''_new_structure''} (stageProject d p)"
proof -
  have 1: "confined {''_new_structure''} (mkdirSync (tempDir @ [fst p]))"
    unfolding tempDir_def using confined_mkdirSync [of "''_new_structure''" _ "[fst p]"] by simp
  have 2: "confined {''_new_structure''} (writeVersion d (tempDir @ [fst p]) v)" for v
    unfolding writeVersion_def tempDir_def
    using confined_writeFile [of "''_new_structure''" _ "[fst p, fst v @ ''.md'']"]
    by (simp add: confined_unlessDry)
  show ?thesis
    unfolding stageProject_def
    by (intro confined_andThen confined_unlessDry confined_forEach 1 2 confined_copyMedia)
qed

lemma confined_staging: "confined {''_new_structure''} (staging d ps)"
proof -
  have "confined {''_new_structure''} (mkdirSync tempDir)"
    unfolding tempDir_def by (rule confined_mkdirSync) simp
  then show ?thesis
    unfolding staging_def
    by (intro confined_andThen confined_unlessDry confined_forEach confined_stageProject)
qed

section \<open>A staging phase that starts without a staging directory\<close>

lemma update_absent: "map_of es k = None \<Longrightarrow> AList.update k v es = es @ [(k, v)]"
  by (induction es) (auto split: if_splits)

lemma update_last: "map_of es k = None \<Longrightarrow> AList.update k v (es @ [(k, n)]) = es @ [(k, v)]"
  by (induction es) (auto split: if_splits)

lemma delete_absent: "map_of es k = None \<Longrightarrow> AList.delete k es = es"
  by (induction es) (auto split: if_splits)

lemma delete_last: "map_of es k = None \<Longrightarrow> AList.delete k (es @ [(k, n)]) = es"
  by (induction es) (auto split: if_splits)

lemma map_of_last: "map_of es k = None \<Longrightarrow> map_of (es @ [(k, n)]) k = Some n"
  by (induction es) (auto split: if_splits)

lemma alter_stagedOver:
  assumes "nodeAt [''_new_structure''] t0 = None" "stagedOver t0 t"
    and "alter (''_new_structure'' # q) f t = Inr t'"
  shows "stagedOver t0 t'"
proof -
  let ?k = "''_new_structure''"
  from assms(2) consider "t = t0" | es n where "t0 = Dir es" "t = Dir (es @ [(?k, n)])"
    unfolding stagedOver_def by blast
  then show ?thesis
  proof cases
    case 1
    show ?thesis
    proof (cases t0)
      case (File c)
      with 1 assms(3) show ?thesis by simp
    next
      case (Dir es)
      then have none: "map_of es ?k = None" using assms(1) by (simp split: option.splits)
      show ?thesis
      proof (cases q)
        case Nil
        then show ?thesis
          using assms(3) 1 Dir none
          by (auto simp: stagedOver_def update_absent delete_absent split: sum.splits option.splits)
      next
        case (Cons y r)
        then show ?thesis using assms(3) 1 Dir none by simp
      qed
    qed
  next
    case 2
    then have none: "map_of es ?k = None" using assms(1) by (simp split: option.splits)
    show ?thesis
    proof (cases q)
      case Nil
      then show ?thesis
        using assms(3) 2 none
        by (auto simp: stagedOver_def update_last delete_last map_of_last
            split: sum.splits option.splits)
    next
      case (Cons y r)
      then show ?thesis
        using assms(3) 2 none
        by (auto simp: stagedOver_def update_last map_of_last split: sum.splits option.splits)
    qed
  qed
qed

lemma mkdirp_stagedOver:
  assumes "nodeAt [''_new_structure''] t0 = None" "stagedOver t0 t"
    and "mkdirp (''_new_structure'' # q) t = Inr t'"
  shows "stagedOver t0 t'"
proof -
  let ?k = "''_new_structure''"
  from assms(2) consider "t = t0" | es n where "t0 = Dir es" "t = Dir (es @ [(?k, n)])"
    unfolding stagedOver_def by blast
  then show ?thesis
  proof cases
    case 1
    show ?thesis
    proof (cases t0)
      case (File c)
      with 1 assms(3) show ?thesis by simp
    next
      case (Dir es)
      then have none: "map_of es ?k = None" using assms(1) by (simp split: option.splits)
      show ?thesis
        using assms(3) 1 Dir none
        by (auto simp: stagedOver_def update_absent split: sum.splits)
    qed
  next
    case 2
    then have none: "map_of es ?k = None" using assms(1) by (simp split: option.splits)
    show ?thesis
      using assms(3) 2 none
      by (auto simp: stagedOver_def update_last map_of_last split: sum.splits)
  qed
qed

lemma keeps_succeed: "keeps P (succeed x)"
  by (simp add: keeps_def succeed_def)

lemma keeps_andThen:
  assumes "keeps P m" "\<And>x. keeps P (k x)"
  shows "keeps P (andThen m k)"
proof -
  have "P (tree (snd (andThen m k s)))" if p: "P (tree s)" for s
  proof (cases "m s")
    case (Pair r s')
    have 1: "P (tree s')" using assms(1) Pair p unfolding keeps_def by (metis snd_conv)
    show ?thesis
    proof (cases r)
      case (Inl e)
      then show ?thesis using Pair 1 by (simp add: andThen_def)
    next
      case (Inr x)
      have "P (tree (snd (k x s')))" using assms(2) 1 unfolding keeps_def by blast
      then show ?thesis using Pair Inr by (simp add: andThen_def)
    qed
  qed
  then show ?thesis by (simp add: keeps_def)
qed

lemma keeps_forEach:
  "(\<And>x. x \<in> set xs \<Longrightarrow> keeps P (body x)) \<Longrightarrow> keeps P (forEach xs body)"
  by (induction xs) (simp_all add: keeps_succeed keeps_andThen)

lemma keeps_sysWrite:
  assumes "\<And>t t'. P t \<Longrightarrow> f t = Inr t' \<Longrightarrow> P t'"
  shows "keeps P (sysWrite f)"
  using assms
  by (auto simp: keeps_def sysWrite_def split: list.splits bool.splits sum.splits)

lemma keeps_unlessDry: "keeps P m \<Longrightarrow> keeps P (unlessDry d m)"
  by (simp add: unlessDry_def keeps_succeed)

lemma keeps_mkdirSync:
  assumes "nodeAt [''_new_structure''] t0 = None"
  shows "keeps (stagedOver t0) (mkdirSync (''_new_structure'' # q))"
proof -
  have "keeps (stagedOver t0) (sysWrite (mkdirp (''_new_structure'' # q)))"
    by (rule keeps_sysWrite) (rule mkdirp_stagedOver [OF assms])
  then show ?thesis
    unfolding mkdirSync_def [abs_def] by (simp add: keeps_def succeed_def)
qed

lemma keeps_writeFile:
  assumes "nodeAt [''_new_structure''] t0 = None"
  shows "keeps (stagedOver t0) (sysWrite (writeFile (''_new_structure'' # q) c))"
  unfolding writeFile_def [abs_def]
  by (rule keeps_sysWrite) (rule alter_stagedOver [OF assms])

lemma keeps_copyFile:
  assumes "nodeAt [''_new_structure''] t0 = None"
  shows "keeps (stagedOver t0) (sysWrite (copyFile src (''_new_structure'' # q)))"
proof (rule keeps_sysWrite)
  fix t t' assume p: "stagedOver t0 t" and a: "copyFile src (''_new_structure'' # q) t = Inr t'"
  from a obtain c where "alter (''_new_structure'' # q) (putFile c) t = Inr t'"
    by (auto simp: copyFile_def writeFile_def split: option.splits node.splits)
  with assms p show "stagedOver t0 t'" by (rule alter_stagedOver)
qed

lemma keeps_copyFileSync:
  assumes "nodeAt [''_new_structure''] t0 = None"
  shows "keeps (stagedOver t0) (copyFileSync src (''_new_structure'' # y # q))"
  unfolding copyFileSync_def dirname_def
  by (intro keeps_andThen) (simp_all add: keeps_mkdirSync [OF assms] keeps_copyFile [OF assms])

lemma keeps_copyMedia:
  assumes "nodeAt [''_new_structure''] t0 = None"
  shows "keeps (stagedOver t0) (copyMedia d (tempDir @ [slug]) ms copied)"
proof (induction ms arbitrary: copied)
  case Nil
  then show ?case by (simp add: keeps_succeed)
next
  case (Cons m ms)
  obtain fname source where m: "m = (fname, source)" by (cases m)
  have "keeps (stagedOver t0) (copyFileSync source ((tempDir @ [slug]) @ [fname]))"
    unfolding tempDir_def using keeps_copyFileSync [OF assms, of source slug "[fname]"] by simp
  then show ?case using Cons.IH
    by (simp add: m keeps_andThen keeps_unlessDry)
qed

lemma keeps_stageProject:
  assumes "nodeAt [''_new_structure''] t0 = None"
  shows "keeps (stagedOver t0) (stageProject d p)"
proof -
  have 1: "keeps (stagedOver t0) (mkdirSync (tempDir @ [fst p]))"
    unfolding tempDir_def using keeps_mkdirSync [OF assms, of "[fst p]"] by simp
  have 2: "keeps (stagedOver t0) (writeVersion d (tempDir @ [fst p]) v)" for v
    unfolding writeVersion_def tempDir_def
    using keeps_writeFile [OF assms, of "[fst p, fst v @ ''.md'']"]
    by (simp add: keeps_unlessDry)
  show ?thesis
    unfolding stageProject_def
    by (intro keeps_andThen keeps_unlessDry keeps_forEach 1 2 keeps_copyMedia [OF assms])
qed

lemma keeps_staging:
  assumes "nodeAt [''_new_structure''] t0 = None"
  shows "keeps (stagedOver t0) (staging d ps)"
proof -
  have "keeps (stagedOver t0) (mkdirSync tempDir)"
    unfolding tempDir_def by (rule keeps_mkdirSync [OF assms])
  then show ?thesis
    unfolding staging_def
    by (intro keeps_andThen keeps_unlessDry keeps_forEach keeps_stageProject [OF assms])
qed

lemma stagedOver_paths:
  assumes "nodeAt [''_new_structure''] t0 = None" "stagedOver t0 t" "p \<noteq> []" "nodeAt p t0 \<noteq> None"
  shows "nodeAt p t = nodeAt p t0"
proof -
  from assms(2) consider "t = t0" | es n where "t0 = Dir es" "t = Dir (es @ [(''_new_structure'', n)])"
    unfolding stagedOver_def by blast
  then show ?thesis
  proof cases
    case 1
    then show ?thesis by simp
  next
    case 2
    obtain x q where p: "p = x # q" using assms(3) by (cases p) auto
    from assms(4) 2(1) p obtain m where m: "map_of es x = Some m"
      by (auto split: option.splits)
    then have "map_of (es @ [(''_new_structure'', n)]) x = Some m" by simp
    then show ?thesis using 2 p m by simp
  qed
qed

text \<open>
  C1, as the claim states it, fails when the content root has an entry named
  \<^verbatim>\<open>_new_structure\<close> before the run. First run: an earlier run has left
  \<^verbatim>\<open>_new_structure/setup-ssh/en.md\<close> behind; the staging phase overwrites that file and
  then fails with \<open>EIO\<close> at the write of \<^verbatim>\<open>ru.md\<close>. Second run: the only language folder
  is called \<^verbatim>\<open>_new_structure\<close> (\<^verbatim>\<open>detectLanguages\<close> reserves no name) and has two items;
  the staging phase writes \<^verbatim>\<open>_new_structure.md\<close> into the folder of the first item in
  that language folder and then fails with \<open>EIO\<close> at the write for the second item.
  Both runs end with the error, with no backup and no promotion, and with a file of the
  original tree changed or a folder of it added to.
\<close>

theorem staging_failure_leaves_tree_counterexample:
  "staging False
     [(''setup-ssh'',
       [(''en'', \<lparr>content = ''E'', files = [], sourcePath = [''en'', ''setup-ssh'']\<rparr>),
        (''ru'', \<lparr>content = ''R'', files = [], sourcePath = [''ru'', ''setup-ssh'']\<rparr>)])]
     \<lparr>tree = Dir [(''en'', Dir [(''setup-ssh'', Dir [(''index.md'', File ''E'')])]),
                 (''ru'', Dir [(''setup-ssh'', Dir [(''index.md'', File ''R'')])]),
                 (''_new_structure'', Dir [(''setup-ssh'', Dir [(''en.md'', File ''old'')])])],
      faults = [False, True]\<rparr>
   = (Inl EIO,
      \<lparr>tree = Dir [(''en'', Dir [(''setup-ssh'', Dir [(''index.md'', File ''E'')])]),
                  (''ru'', Dir [(''setup-ssh'', Dir [(''index.md'', File ''R'')])]),
                  (''_new_structure'', Dir [(''setup-ssh'', Dir [(''en.md'', File ''E'')])])],
       faults = []\<rparr>)
   \<and> main (\<lambda>b. b) False
       (Some (Dir [(''en'', Dir [(''setup-ssh'', Dir [(''index.md'', File ''E'')])]),
                   (''ru'', Dir [(''setup-ssh'', Dir [(''index.md'', File ''R'')])]),
                   (''_new_structure'', Dir [(''setup-ssh'', Dir [(''en.md'', File ''old'')])])]))
       [False, True]
   = (Inl (Thrown EIO),
      Some (Dir [(''en'', Dir [(''setup-ssh'', Dir [(''index.md'', File ''E'')])]),
                 (''ru'', Dir [(''setup-ssh'', Dir [(''index.md'', File ''R'')])]),
                 (''_new_structure'', Dir [(''setup-ssh'', Dir [(''en.md'', File ''E'')])])]),
      [])
   \<and> detectLanguages
       (Some (Dir [(''_new_structure'',
                    Dir [(''setup-ssh'', Dir [(''index.md'', File ''A'')]),
                         (''about'', Dir [(''index.md'', File ''B'')])])]))
   = Inr [''_new_structure'']
   \<and> staging False
     [(''setup-ssh'',
       [(''_new_structure'',
         \<lparr>content = ''A'', files = [], sourcePath = [''_new_structure'', ''setup-ssh'']\<rparr>)]),
      (''about'',
       [(''_new_structure'',
         \<lparr>content = ''B'', files = [], sourcePath = [''_new_structure'', ''about'']\<rparr>)])]
     \<lparr>tree = Dir [(''_new_structure'',
                   Dir [(''setup-ssh'', Dir [(''index.md'', File ''A'')]),
                        (''about'', Dir [(''index.md'', File ''B'')])])],
      faults = [False, True]\<rparr>
   = (Inl EIO,
      \<lparr>tree = Dir [(''_new_structure'',
                   Dir [(''setup-ssh'',
                          Dir [(''index.md'', File ''A''), (''_new_structure.md'', File ''A'')]),
                        (''about'', Dir [(''index.md'', File ''B'')])])],
       faults = []\<rparr>)
   \<and> main (\<lambda>b. b) False
       (Some (Dir [(''_new_structure'',
                    Dir [(''setup-ssh'', Dir [(''index.md'', File ''A'')]),
                         (''about'', Dir [(''index.md'', File ''B'')])])]))
       [False, True]
   = (Inl (Thrown EIO),
      Some (Dir [(''_new_structure'',
                  Dir [(''setup-ssh'',
                         Dir [(''index.md'', File ''A''), (''_new_structure.md'', File ''A'')]),
                       (''about'', Dir [(''index.md'', File ''B'')])])]),
      [])"
  by code_simp

text \<open>
  C1, amended. Take a live run of \<^verbatim>\<open>migrate\<close> on a content root that has no entry named
  \<^verbatim>\<open>_new_structure\<close>. When its staging phase ends with an error, whatever the cause (the
  tree, or a fault of the disk at any of its writing calls), \<^verbatim>\<open>migrate\<close> ends with that
  error in the state the staging phase left: nothing of the backup, of the promotion
  or of the clean-up is run. The tree of that state is the original tree, or the
  original tree with one more entry at the end of the content root, the staging
  directory \<^verbatim>\<open>_new_structure\<close> as far as it was filled. So every file and every
  directory that the original tree has below the content root is there unchanged: no
  language folder has been moved, removed or changed, and no item directory has
  appeared in the content root.
\<close>

theorem staging_failure_leaves_tree:
  assumes "staging False ps s = (Inl e, s')"
    and "nodeAt [''_new_structure''] (tree s) = None"
  shows "migrate False languages ps s = (Inl e, s')
       \<and> (tree s' = tree s
          \<or> (\<exists>es n. tree s = Dir es \<and> tree s' = Dir (es @ [(''_new_structure'', n)])))
       \<and> (\<forall>p. p \<noteq> [] \<and> nodeAt p (tree s) \<noteq> None \<longrightarrow> nodeAt p (tree s') = nodeAt p (tree s))"
proof -
  have "stagedOver (tree s) (tree s)" by (simp add: stagedOver_def)
  then have over: "stagedOver (tree s) (tree s')"
    using keeps_staging [OF assms(2), of False ps] assms(1) unfolding keeps_def
    by (metis snd_conv)
  have 1: "migrate False languages ps s = (Inl e, s')"
    using assms(1) by (simp add: migrate_def andThen_def)
  have 2: "tree s' = tree s
          \<or> (\<exists>es n. tree s = Dir es \<and> tree s' = Dir (es @ [(''_new_structure'', n)]))"
    using over by (simp only: stagedOver_def)
  have 3: "nodeAt p (tree s') = nodeAt p (tree s)" if "p \<noteq> [] \<and> nodeAt p (tree s) \<noteq> None" for p
    using stagedOver_paths [OF assms(2) over, of p] that by blast
  from 1 2 3 show ?thesis by blast
qed

text \<open>Two languages of one item; the fourth writing call, the one that writes \<^verbatim>\<open>ru.md\<close>,
  fails. The staging directory with \<^verbatim>\<open>en.md\<close> in it is what the run adds to the tree.\<close>

theorem staging_failure_leaves_tree_witness:
  "migrate False [''en'', ''ru'']
     [(''setup-ssh'',
       [(''en'', \<lparr>content = ''E'', files = [''diagram.png''], sourcePath = [''en'', ''setup-ssh'']\<rparr>),
        (''ru'', \<lparr>content = ''R'', files = [''diagram.png''], sourcePath = [''ru'', ''setup-ssh'']\<rparr>)])]
     \<lparr>tree = Dir [(''en'', Dir [(''setup-ssh'', Dir [(''index.md'', File ''E''), (''diagram.png'', File ''P'')])]),
           (''ru'', Dir [(''setup-ssh'', Dir [(''index.md'', File ''R''), (''diagram.png'', File ''Q'')])])],
      faults = [False, False, False, True]\<rparr>
   = (Inl EIO,
      \<lparr>tree = Dir ([(''en'', Dir [(''setup-ssh'', Dir [(''index.md'', File ''E''), (''diagram.png'', File ''P'')])]),
           (''ru'', Dir [(''setup-ssh'', Dir [(''index.md'', File ''R''), (''diagram.png'', File ''Q'')])])]
           @ [(''_new_structure'', Dir [(''setup-ssh'', Dir [(''en.md'', File ''E'')])])]),
      faults = []\<rparr>)
   \<and> nodeAt [''ru'', ''setup-ssh'', ''diagram.png'']
       (Dir ([(''en'', Dir [(''setup-ssh'', Dir [(''index.md'', File ''E''), (''diagram.png'', File ''P'')])]),
           (''ru'', Dir [(''setup-ssh'', Dir [(''index.md'', File ''R''), (''diagram.png'', File ''Q'')])])]
           @ [(''_new_structure'', Dir [(''setup-ssh'', Dir [(''en.md'', File ''E'')])])]))
     = Some (File ''Q'')"
proof -
  let ?ps = "[(''setup-ssh'',
       [(''en'', \<lparr>content = ''E'', files = [''diagram.png''], sourcePath = [''en'', ''setup-ssh'']\<rparr>),
        (''ru'', \<lparr>content = ''R'', files = [''diagram.png''], sourcePath = [''ru'', ''setup-ssh'']\<rparr>)])]"
  let ?es = "[(''en'', Dir [(''setup-ssh'', Dir [(''index.md'', File ''E''), (''diagram.png'', File ''P'')])]),
           (''ru'', Dir [(''setup-ssh'', Dir [(''index.md'', File ''R''), (''diagram.png'', File ''Q'')])])]"
  let ?t' = "Dir (?es @ [(''_new_structure'', Dir [(''setup-ssh'', Dir [(''en.md'', File ''E'')])])])"
  let ?s = "\<lparr>tree = Dir ?es, faults = [False, False, False, True]\<rparr>"
  have h: "staging False ?ps ?s = (Inl EIO, \<lparr>tree = ?t', faults = []\<rparr>)"
    by code_simp
  have f: "nodeAt [''_new_structure''] (tree ?s) = None" by code_simp
  have q: "nodeAt [''ru'', ''setup-ssh'', ''diagram.png''] (tree ?s) = Some (File ''Q'')" by code_simp
  from staging_failure_leaves_tree [OF h f, of "[''en'', ''ru'']"]
  have "migrate False [''en'', ''ru''] ?ps ?s = (Inl EIO, \<lparr>tree = ?t', faults = []\<rparr>)"
    and "\<forall>p. p \<noteq> [] \<and> nodeAt p (tree ?s) \<noteq> None \<longrightarrow>
           nodeAt p (tree \<lparr>tree = ?t', faults = []\<rparr>) = nodeAt p (tree ?s)"
    by blast+
  then show ?thesis using q by simp
qed

section \<open>Well-formed trees and single writes\<close>

lemma map_of_wellFormed:
  "wellFormed (Dir es) \<Longrightarrow> map_of es x = Some n \<Longrightarrow> wellFormed n"
  by (auto dest!: map_of_SomeD)

lemma wellFormed_nodeAt:
  "wellFormed t \<Longrightarrow> nodeAt p t = Some n \<Longrightarrow> wellFormed n"
proof (induction p t rule: nodeAt.induct)
  case (1 n)
  then show ?case by simp
next
  case (2 x p c)
  then show ?case by simp
next
  case (3 x p es)
  then obtain m where m: "map_of es x = Some m" "nodeAt p m = Some n"
    by (auto split: option.splits)
  from "3.IH" [OF m(1) map_of_wellFormed [OF "3.prems"(1) m(1)] m(2)] show ?case .
qed

lemma set_update_subset: "set (AList.update x n es) \<subseteq> insert (x, n) (set es)"
  by (induction es) auto

lemma wellFormed_update:
  assumes "wellFormed (Dir es)" "wellFormed n"
  shows "wellFormed (Dir (AList.update x n es))"
proof -
  have "distinct (map fst (AList.update x n es))"
    using assms(1) by (simp add: AList.distinct_update)
  moreover have "wellFormed (snd e)" if "e \<in> set (AList.update x n es)" for e
    using that set_update_subset [of x n es] assms by auto
  ultimately show ?thesis by simp
qed

lemma wellFormed_delete:
  assumes "wellFormed (Dir es)"
  shows "wellFormed (Dir (AList.delete x es))"
proof -
  have "distinct (map fst (AList.delete x es))"
    using assms by (simp add: AList.distinct_delete)
  moreover have "set (AList.delete x es) \<subseteq> set es"
    by (auto simp: AList.delete_eq)
  ultimately show ?thesis using assms by auto
qed

lemma alter_wellFormed:
  "(\<And>old n. f old = Inr (Some n) \<Longrightarrow> wellFormed n)
     \<Longrightarrow> wellFormed t \<Longrightarrow> alter p f t = Inr t' \<Longrightarrow> wellFormed t'"
proof (induction p f t arbitrary: t' rule: alter.induct)
  case (1 f n)
  then show ?case by simp
next
  case (2 x p f c)
  then show ?case by simp
next
  case (3 x f es)
  show ?case
  proof (cases "f (map_of es x)")
    case (Inl e)
    with "3.prems" show ?thesis by simp
  next
    case (Inr r)
    show ?thesis
    proof (cases r)
      case None
      with Inr "3.prems"(2,3) show ?thesis by (auto intro: wellFormed_delete)
    next
      case (Some n)
      with Inr have "wellFormed n" using "3.prems"(1) by blast
      with Some Inr "3.prems"(2,3) show ?thesis by (auto intro: wellFormed_update)
    qed
  qed
next
  case (4 x y p f es)
  from "4.prems"(3) obtain n n' where n: "map_of es x = Some n" and a: "alter (y # p) f n = Inr n'"
    and t': "t' = Dir (AList.update x n' es)"
    by (auto split: sum.splits option.splits)
  have wn: "wellFormed n" using "4.prems"(2) n by (rule map_of_wellFormed)
  have "wellFormed n'"
  proof (rule "4.IH" [OF n _ wn a])
    fix old m assume "f old = Inr (Some m)"
    then show "wellFormed m" by (rule "4.prems"(1))
  qed
  then show ?case unfolding t' using "4.prems"(2) by (intro wellFormed_update)
qed

lemma mkdirp_wellFormed:
  "wellFormed t \<Longrightarrow> mkdirp p t = Inr t' \<Longrightarrow> wellFormed t'"
proof (induction p t arbitrary: t' rule: mkdirp.induct)
  case (1 es)
  then show ?case by auto
next
  case (2 c)
  then show ?case by simp
next
  case (3 x p c)
  then show ?case by simp
next
  case (4 x p es)
  let ?child = "case map_of es x of None \<Rightarrow> Dir [] | Some n \<Rightarrow> n"
  from "4.prems"(2) obtain n' where a: "mkdirp p ?child = Inr n'"
    and t': "t' = Dir (AList.update x n' es)"
    by (auto split: sum.splits)
  have "wellFormed ?child"
    using "4.prems"(1) by (auto split: option.splits dest!: map_of_SomeD)
  from "4.IH" [OF this a] show ?case unfolding t' using "4.prems"(1) by (intro wellFormed_update)
qed

lemma alter_parent:
  "alter (p @ [x]) f t = Inr t' \<Longrightarrow>
     \<exists>ds r. nodeAt p t = Some (Dir ds) \<and> f (map_of ds x) = Inr r
        \<and> nodeAt p t' = Some (Dir (case r of None \<Rightarrow> AList.delete x ds | Some n \<Rightarrow> AList.update x n ds))"
proof (induction p arbitrary: t t')
  case Nil
  then obtain es where t: "t = Dir es" by (cases t) auto
  with Nil show ?case by (auto split: sum.splits option.splits)
next
  case (Cons y p)
  then obtain es where t: "t = Dir es" by (cases t) auto
  obtain z zs where pz: "p @ [x] = z # zs" by (cases "p @ [x]") auto
  from Cons.prems t pz obtain n n' where n: "map_of es y = Some n"
    and a: "alter (p @ [x]) f n = Inr n'" and t': "t' = Dir (AList.update y n' es)"
    by (auto split: sum.splits option.splits)
  from Cons.IH [OF a] show ?case using n by (simp add: t t' AList.update_conv')
qed

lemma mkdirp_fresh:
  "mkdirp p t = Inr t' \<Longrightarrow> nodeAt p t = None \<Longrightarrow> nodeAt p t' = Some (Dir [])"
proof (induction p t arbitrary: t' rule: mkdirp.induct)
  case (1 es)
  then show ?case by simp
next
  case (2 c)
  then show ?case by simp
next
  case (3 x p c)
  then show ?case by simp
next
  case (4 x p es)
  let ?child = "case map_of es x of None \<Rightarrow> Dir [] | Some n \<Rightarrow> n"
  from "4.prems"(1) obtain n' where a: "mkdirp p ?child = Inr n'"
    and t': "t' = Dir (AList.update x n' es)"
    by (auto split: sum.splits)
  show ?case
  proof (cases "map_of es x")
    case None
    show ?thesis
    proof (cases p)
      case Nil
      with a None show ?thesis by (simp add: t' AList.update_conv')
    next
      case (Cons y ys)
      then have "nodeAt p ?child = None" using None by simp
      from "4.IH" [OF a this] show ?thesis by (simp add: t' AList.update_conv')
    qed
  next
    case (Some n)
    then have "nodeAt p ?child = None" using "4.prems"(2) by simp
    from "4.IH" [OF a this] show ?thesis by (simp add: t' AList.update_conv')
  qed
qed

lemma split_last: "p \<noteq> [] \<Longrightarrow> \<exists>p' x. p = p' @ [x]"
  by (metis append_butlast_last_id)

lemma nodeAt_snoc:
  "nodeAt p t = Some (Dir ds) \<Longrightarrow> nodeAt (p @ [x]) t = map_of ds x"
  by (simp add: nodeAt_append split: option.splits)

lemma alter_at:
  assumes "alter p f t = Inr t'"
  shows "\<exists>r. f (nodeAt p t) = Inr r \<and> nodeAt p t' = r"
proof -
  have "p \<noteq> []" using assms by auto
  then obtain p' x where p: "p = p' @ [x]" using split_last by blast
  from alter_parent [OF assms [unfolded p]] obtain ds r where
    d: "nodeAt p' t = Some (Dir ds)" and f: "f (map_of ds x) = Inr r"
    and d': "nodeAt p' t' = Some (Dir (case r of None \<Rightarrow> AList.delete x ds | Some n \<Rightarrow> AList.update x n ds))"
    by blast
  have "nodeAt p t = map_of ds x" unfolding p using d by (rule nodeAt_snoc)
  moreover have "nodeAt p t' = r" unfolding p nodeAt_snoc [OF d']
    by (cases r) (simp_all add: AList.update_conv' AList.delete_conv')
  ultimately show ?thesis using f by simp
qed

lemma unrelated_snoc: "unrelated p q \<Longrightarrow> unrelated (p @ [x]) q"
  unfolding unrelated_def by (auto dest: append_prefixD)

lemma alter_frame': "alter p f t = Inr t' \<Longrightarrow> unrelated p q \<Longrightarrow> nodeAt q t' = nodeAt q t"
  unfolding unrelated_def by (rule alter_frame) blast+

lemma putMoved_wellFormed: "wellFormed n \<Longrightarrow> putMoved n old = Inr (Some m) \<Longrightarrow> wellFormed m"
  by (auto simp: putMoved_def split: option.splits node.splits if_splits)

lemma rename_wellFormed:
  assumes "wellFormed t" "rename src dest t = Inr t'"
  shows "wellFormed t'"
proof (cases "src = dest")
  case True
  with assms show ?thesis by (auto simp: rename_def split: option.splits)
next
  case False
  from assms(2) False obtain n t1 where n: "nodeAt src t = Some n"
    and a1: "alter dest (putMoved n) t = Inr t1" and a2: "alter src unlink t1 = Inr t'"
    by (auto simp: rename_def split: option.splits if_splits sum.splits)
  have wn: "wellFormed n" using assms(1) n by (rule wellFormed_nodeAt)
  have "wellFormed t1"
    by (rule alter_wellFormed [OF _ assms(1) a1]) (rule putMoved_wellFormed [OF wn])
  then show ?thesis
    by (rule alter_wellFormed [OF _ _ a2, rotated]) (simp add: unlink_def)
qed

lemma rename_result:
  assumes "rename src dest t = Inr t'" "unrelated src dest"
  shows "\<exists>n. nodeAt src t = Some n \<and> nodeAt dest t' = Some n \<and> nodeAt src t' = None"
proof -
  have ne: "src \<noteq> dest" using assms(2) by (auto simp: unrelated_def)
  from assms(1) ne obtain n t1 where n: "nodeAt src t = Some n"
    and a1: "alter dest (putMoved n) t = Inr t1" and a2: "alter src unlink t1 = Inr t'"
    by (auto simp: rename_def split: option.splits if_splits sum.splits)
  from alter_at [OF a1] have "nodeAt dest t1 = Some n"
    by (auto simp: putMoved_def split: option.splits node.splits if_splits)
  moreover have "nodeAt dest t' = nodeAt dest t1"
    using a2 assms(2) by (rule alter_frame')
  moreover from alter_at [OF a2] have "nodeAt src t' = None" by (simp add: unlink_def)
  ultimately show ?thesis using n by simp
qed

lemma rename_frame:
  assumes "rename src dest t = Inr t'" "unrelated src q" "unrelated dest q"
  shows "nodeAt q t' = nodeAt q t"
proof (cases "src = dest")
  case True
  with assms(1) show ?thesis by (auto simp: rename_def split: option.splits)
next
  case False
  from assms(1) False obtain n t1 where n: "nodeAt src t = Some n"
    and a1: "alter dest (putMoved n) t = Inr t1" and a2: "alter src unlink t1 = Inr t'"
    by (auto simp: rename_def split: option.splits if_splits sum.splits)
  have "nodeAt q t' = nodeAt q t1" using a2 assms(2) by (rule alter_frame')
  also have "\<dots> = nodeAt q t" using a1 assms(3) by (rule alter_frame')
  finally show ?thesis .
qed

lemma rename_nonempty_fails:
  assumes "nodeAt (dest @ [x]) t \<noteq> None" "src \<noteq> dest"
  shows "rename src dest t \<noteq> Inr t'"
proof
  assume r: "rename src dest t = Inr t'"
  with assms(2) obtain n t1 where a1: "alter dest (putMoved n) t = Inr t1"
    by (auto simp: rename_def split: option.splits if_splits sum.splits)
  from assms(1) obtain m where m: "nodeAt dest t = Some m" "nodeAt [x] m \<noteq> None"
    by (auto simp: nodeAt_append split: option.splits)
  then obtain es where d: "nodeAt dest t = Some (Dir es)" and "map_of es x \<noteq> None"
    by (cases m) (auto split: option.splits)
  then have "es \<noteq> []" by auto
  with alter_at [OF a1] d show False
    by (auto simp: putMoved_def split: if_splits)
qed

section \<open>The staging phase, when it succeeds\<close>

lemma sysWrite_ok: "sysWrite f s = (Inr u, s') \<Longrightarrow> f (tree s) = Inr (tree s')"
  by (auto simp: sysWrite_def split: list.splits bool.splits sum.splits)

lemma andThen_ok:
  "andThen m k s = (Inr y, s'') \<Longrightarrow> \<exists>x s'. m s = (Inr x, s') \<and> k x s' = (Inr y, s'')"
  by (auto simp: andThen_def split: prod.splits sum.splits)

lemma forEach_Cons_ok:
  "forEach (x # xs) body s = (Inr u, s'') \<Longrightarrow>
     \<exists>s'. body x s = (Inr (), s') \<and> forEach xs body s' = (Inr (), s'')"
  by (auto dest!: andThen_ok)

lemma mkdirSync_ok:
  assumes "mkdirSync p s = (Inr u, s')"
  shows "(\<exists>es. nodeAt p (tree s') = Some (Dir es) \<and> (nodeAt p (tree s) = None \<longrightarrow> es = []))
       \<or> (\<exists>c. nodeAt p (tree s) = Some (File c) \<and> tree s' = tree s)"
    and "existsSync p (tree s) \<Longrightarrow> tree s' = tree s"
    and "\<not> prefix q p \<Longrightarrow> nodeAt q (tree s') = nodeAt q (tree s)"
    and "wellFormed (tree s) \<Longrightarrow> wellFormed (tree s')"
proof -
  show e: "existsSync p (tree s) \<Longrightarrow> tree s' = tree s"
    using assms by (auto simp: mkdirSync_def succeed_def)
  have m: "mkdirp p (tree s) = Inr (tree s')" if "\<not> existsSync p (tree s)"
    using assms that by (auto simp: mkdirSync_def dest: sysWrite_ok)
  show "\<not> prefix q p \<Longrightarrow> nodeAt q (tree s') = nodeAt q (tree s)"
    using e m mkdirp_frame by (cases "existsSync p (tree s)") auto
  show "wellFormed (tree s) \<Longrightarrow> wellFormed (tree s')"
    using e m mkdirp_wellFormed by (cases "existsSync p (tree s)") auto
  show "(\<exists>es. nodeAt p (tree s') = Some (Dir es) \<and> (nodeAt p (tree s) = None \<longrightarrow> es = []))
       \<or> (\<exists>c. nodeAt p (tree s) = Some (File c) \<and> tree s' = tree s)"
  proof (cases "nodeAt p (tree s)")
    case None
    then have "mkdirp p (tree s) = Inr (tree s')" using m by (simp add: existsSync_def)
    from mkdirp_fresh [OF this None] show ?thesis by simp
  next
    case (Some n)
    then have "tree s' = tree s" using e by (simp add: existsSync_def)
    with Some show ?thesis by (cases n) auto
  qed
qed

lemma writeFile_dir:
  assumes "writeFile (dir @ [x]) c t = Inr t'"
  shows "\<exists>ds. nodeAt dir t = Some (Dir ds) \<and> nodeAt dir t' = Some (Dir (putEntry ds (x, c)))"
proof -
  from alter_parent [OF assms [unfolded writeFile_def]] obtain ds r where
    d: "nodeAt dir t = Some (Dir ds)" and f: "putFile c (map_of ds x) = Inr r"
    and d': "nodeAt dir t' = Some (Dir (case r of None \<Rightarrow> AList.delete x ds | Some n \<Rightarrow> AList.update x n ds))"
    by blast
  from f have "r = Some (File c)"
    by (auto simp: putFile_def split: option.splits node.splits)
  with d d' show ?thesis by (simp add: putEntry_def)
qed

lemma writeFile_frame:
  "writeFile (dir @ [x]) c t = Inr t' \<Longrightarrow> unrelated dir q \<Longrightarrow> nodeAt q t' = nodeAt q t"
  unfolding writeFile_def by (erule alter_frame') (rule unrelated_snoc)

lemma writeFile_wellFormed:
  "wellFormed t \<Longrightarrow> writeFile p c t = Inr t' \<Longrightarrow> wellFormed t'"
  unfolding writeFile_def
  by (erule alter_wellFormed [rotated]) (auto simp: putFile_def split: option.splits node.splits)

lemma copyFile_ok:
  assumes "copyFile src dest t = Inr t'"
  shows "\<exists>c. nodeAt src t = Some (File c) \<and> writeFile dest c t = Inr t'"
  using assms by (auto simp: copyFile_def split: option.splits node.splits)

lemma writes_loop:
  "forEach lv (writeVersion False dir) s = (Inr (), s') \<Longrightarrow> nodeAt dir (tree s) = Some (Dir ds)
   \<Longrightarrow> nodeAt dir (tree s') = Some (Dir (foldl putEntry ds (docWrites lv)))
       \<and> (\<forall>q. unrelated dir q \<longrightarrow> nodeAt q (tree s') = nodeAt q (tree s))
       \<and> (wellFormed (tree s) \<longrightarrow> wellFormed (tree s'))"
proof (induction lv arbitrary: s ds)
  case Nil
  then show ?case by (simp add: succeed_def docWrites_def)
next
  case (Cons v lv)
  from forEach_Cons_ok [OF Cons.prems(1)] obtain s1 where
    w: "writeVersion False dir v s = (Inr (), s1)"
    and r: "forEach lv (writeVersion False dir) s1 = (Inr (), s')" by blast
  from w have wf: "writeFile (dir @ [fst v @ ''.md'']) (content (snd v)) (tree s) = Inr (tree s1)"
    by (auto simp: writeVersion_def unlessDry_def dest: sysWrite_ok)
  from writeFile_dir [OF wf] Cons.prems(2)
  have d1: "nodeAt dir (tree s1) = Some (Dir (putEntry ds (fst v @ ''.md'', content (snd v))))"
    by auto
  from Cons.IH [OF r d1] writeFile_frame [OF wf] writeFile_wellFormed [OF _ wf]
  show ?case by (simp add: docWrites_def)
qed

lemma firstSources_subset: "set (firstSources ms copied) \<subseteq> set ms"
  by (induction ms copied rule: firstSources.induct) auto

lemma copyFileSync_ok:
  assumes "copyFileSync src (dir @ [x]) s = (Inr u, s')" "existsSync dir (tree s)"
  shows "copyFile src (dir @ [x]) (tree s) = Inr (tree s')"
proof -
  from andThen_ok [OF assms(1) [unfolded copyFileSync_def]] obtain s1 where
    m: "mkdirSync (dirname (dir @ [x])) s = (Inr (), s1)"
    and c: "sysWrite (copyFile src (dir @ [x])) s1 = (Inr u, s')" by auto
  have "tree s1 = tree s" using mkdirSync_ok(2) [OF m] assms(2) by (simp add: dirname_def)
  with sysWrite_ok [OF c] show ?thesis by simp
qed

lemma fileAt_cong: "nodeAt p t = nodeAt p t' \<Longrightarrow> fileAt t p = fileAt t' p"
  by (simp add: fileAt_def)

lemma copy_loop:
  "copyMedia False dir ms copied s = (Inr (), s') \<Longrightarrow> nodeAt dir (tree s) = Some (Dir ds)
   \<Longrightarrow> (\<forall>m \<in> set ms. unrelated dir (snd m))
   \<Longrightarrow> nodeAt dir (tree s')
         = Some (Dir (foldl putEntry ds
              (map (\<lambda>m. (fst m, fileAt (tree s) (snd m))) (firstSources ms copied))))
       \<and> (\<forall>q. unrelated dir q \<longrightarrow> nodeAt q (tree s') = nodeAt q (tree s))
       \<and> (wellFormed (tree s) \<longrightarrow> wellFormed (tree s'))
       \<and> (\<forall>m \<in> set (firstSources ms copied). \<exists>c. nodeAt (snd m) (tree s) = Some (File c))"
proof (induction ms arbitrary: copied s ds)
  case Nil
  then show ?case by (simp add: succeed_def)
next
  case (Cons m ms)
  obtain name src where m: "m = (name, src)" by (cases m)
  from Cons.prems(3) have un: "\<forall>m \<in> set ms. unrelated dir (snd m)" and us: "unrelated dir src"
    using m by auto
  show ?case
  proof (cases "name \<in> set copied")
    case True
    with Cons.prems(1) have "copyMedia False dir ms copied s = (Inr (), s')" by (simp add: m)
    from Cons.IH [OF this Cons.prems(2) un] show ?thesis using True by (simp add: m)
  next
    case False
    with Cons.prems(1) have "andThen (copyFileSync src (dir @ [name]))
        (\<lambda>u. copyMedia False dir ms (copied @ [name])) s = (Inr (), s')"
      by (simp add: m unlessDry_def)
    from andThen_ok [OF this] obtain s1 where
      c: "copyFileSync src (dir @ [name]) s = (Inr (), s1)"
      and r: "copyMedia False dir ms (copied @ [name]) s1 = (Inr (), s')" by auto
    have ex: "existsSync dir (tree s)" using Cons.prems(2) by (simp add: existsSync_def)
    from copyFile_ok [OF copyFileSync_ok [OF c ex]] obtain c' where
      src: "nodeAt src (tree s) = Some (File c')"
      and w: "writeFile (dir @ [name]) c' (tree s) = Inr (tree s1)" by blast
    have fr: "nodeAt q (tree s1) = nodeAt q (tree s)" if "unrelated dir q" for q
      using w that by (rule writeFile_frame)
    from writeFile_dir [OF w] Cons.prems(2)
    have d1: "nodeAt dir (tree s1) = Some (Dir (putEntry ds (name, c')))" by auto
    have c': "c' = fileAt (tree s) src" using src by (simp add: fileAt_def)
    have same: "fileAt (tree s1) (snd m') = fileAt (tree s) (snd m')"
      "nodeAt (snd m') (tree s1) = nodeAt (snd m') (tree s)"
      if "m' \<in> set (firstSources ms (copied @ [name]))" for m'
    proof -
      from that have "m' \<in> set ms" using firstSources_subset by blast
      with un have "unrelated dir (snd m')" by blast
      then show "nodeAt (snd m') (tree s1) = nodeAt (snd m') (tree s)" by (rule fr)
      then show "fileAt (tree s1) (snd m') = fileAt (tree s) (snd m')" by (rule fileAt_cong)
    qed
    then have maps: "map (\<lambda>m. (fst m, fileAt (tree s1) (snd m))) (firstSources ms (copied @ [name]))
        = map (\<lambda>m. (fst m, fileAt (tree s) (snd m))) (firstSources ms (copied @ [name]))"
      by simp
    from Cons.IH [OF r d1 un]
    have ih: "nodeAt dir (tree s')
         = Some (Dir (foldl putEntry (putEntry ds (name, c'))
              (map (\<lambda>m. (fst m, fileAt (tree s) (snd m))) (firstSources ms (copied @ [name])))))"
      and ihf: "\<forall>q. unrelated dir q \<longrightarrow> nodeAt q (tree s') = nodeAt q (tree s1)"
      and ihw: "wellFormed (tree s1) \<longrightarrow> wellFormed (tree s')"
      and ihs: "\<forall>m \<in> set (firstSources ms (copied @ [name])). \<exists>c. nodeAt (snd m) (tree s1) = Some (File c)"
      unfolding maps by blast+
    have 1: "nodeAt dir (tree s')
         = Some (Dir (foldl putEntry ds
              (map (\<lambda>m. (fst m, fileAt (tree s) (snd m))) (firstSources (m # ms) copied))))"
      using ih False by (simp add: m c')
    have 2: "\<forall>q. unrelated dir q \<longrightarrow> nodeAt q (tree s') = nodeAt q (tree s)"
      using ihf fr by simp
    have 3: "wellFormed (tree s) \<longrightarrow> wellFormed (tree s')"
      using ihw writeFile_wellFormed [OF _ w] by blast
    have 4: "\<forall>m \<in> set (firstSources (m # ms) copied). \<exists>c. nodeAt (snd m) (tree s) = Some (File c)"
      using ihs same(2) src False by (auto simp: m)
    from 1 2 3 4 show ?thesis by blast
  qed
qed

lemma entriesAt_cong: "nodeAt p t = nodeAt p t' \<Longrightarrow> entriesAt t p = entriesAt t' p"
  by (simp add: entriesAt_def)

lemma mediaWrites_cong:
  assumes "\<And>m. m \<in> set (allMedia lv) \<Longrightarrow> nodeAt (snd m) t = nodeAt (snd m) t'"
  shows "mediaWrites t lv = mediaWrites t' lv"
proof -
  have "fileAt t (snd m) = fileAt t' (snd m)" if "m \<in> set (firstSources (allMedia lv) [])" for m
    using that firstSources_subset [of "allMedia lv" "[]"] assms by (intro fileAt_cong) blast
  then show ?thesis by (simp add: mediaWrites_def)
qed

lemma stagedEntries_cong:
  assumes "\<And>m. m \<in> set (allMedia lv) \<Longrightarrow> nodeAt (snd m) t = nodeAt (snd m) t'"
  shows "stagedEntries t lv ds = stagedEntries t' lv ds"
  unfolding stagedEntries_def using mediaWrites_cong [OF assms] by simp

lemma stageProject_ok:
  assumes "stageProject False (S, lv) s = (Inr (), s')" "lv \<noteq> []"
    and un: "\<forall>m \<in> set (allMedia lv). unrelated (tempDir @ [S]) (snd m)"
  shows "nodeAt (tempDir @ [S]) (tree s')
           = Some (Dir (stagedEntries (tree s) lv (entriesAt (tree s) (tempDir @ [S]))))"
    and "\<forall>q. unrelated (tempDir @ [S]) q \<longrightarrow> nodeAt q (tree s') = nodeAt q (tree s)"
    and "wellFormed (tree s) \<longrightarrow> wellFormed (tree s')"
    and "\<forall>m \<in> set (firstSources (allMedia lv) []). \<exists>c. nodeAt (snd m) (tree s) = Some (File c)"
proof -
  let ?dir = "tempDir @ [S]"
  from assms(1) have "andThen (mkdirSync ?dir)
       (\<lambda>u. andThen (forEach lv (writeVersion False ?dir))
         (\<lambda>u. copyMedia False ?dir (allMedia lv) [])) s = (Inr (), s')"
    by (simp add: stageProject_def unlessDry_def)
  from andThen_ok [OF this] obtain s1 where
    m: "mkdirSync ?dir s = (Inr (), s1)"
    and rest: "andThen (forEach lv (writeVersion False ?dir))
         (\<lambda>u. copyMedia False ?dir (allMedia lv) []) s1 = (Inr (), s')" by auto
  from andThen_ok [OF rest] obtain s2 where
    w: "forEach lv (writeVersion False ?dir) s1 = (Inr (), s2)"
    and c: "copyMedia False ?dir (allMedia lv) [] s2 = (Inr (), s')" by auto
  obtain v lv' where lv: "lv = v # lv'" using assms(2) by (cases lv) auto
  from forEach_Cons_ok [OF w [unfolded lv]] obtain s1' where
    "writeVersion False ?dir v s1 = (Inr (), s1')" by blast
  then have "writeFile (?dir @ [fst v @ ''.md'']) (content (snd v)) (tree s1) = Inr (tree s1')"
    by (auto simp: writeVersion_def unlessDry_def dest: sysWrite_ok)
  from writeFile_dir [OF this] obtain ds1 where d1: "nodeAt ?dir (tree s1) = Some (Dir ds1)"
    by blast
  have ds1: "ds1 = entriesAt (tree s) ?dir"
  proof (cases "nodeAt ?dir (tree s)")
    case None
    with mkdirSync_ok(1) [OF m] d1 have "ds1 = []" by auto
    with None show ?thesis by (simp add: entriesAt_def)
  next
    case (Some n)
    then have "tree s1 = tree s" using mkdirSync_ok(2) [OF m] by (simp add: existsSync_def)
    with d1 show ?thesis by (simp add: entriesAt_def)
  qed
  have f1: "nodeAt q (tree s1) = nodeAt q (tree s)" if "unrelated ?dir q" for q
    using mkdirSync_ok(3) [OF m, of q] that by (simp add: unrelated_def)
  from writes_loop [OF w d1] have
    d2: "nodeAt ?dir (tree s2) = Some (Dir (foldl putEntry ds1 (docWrites lv)))"
    and f2: "\<forall>q. unrelated ?dir q \<longrightarrow> nodeAt q (tree s2) = nodeAt q (tree s1)"
    and w2: "wellFormed (tree s1) \<longrightarrow> wellFormed (tree s2)" by blast+
  from copy_loop [OF c d2 un] have
    d3: "nodeAt ?dir (tree s') = Some (Dir (foldl putEntry (foldl putEntry ds1 (docWrites lv))
              (map (\<lambda>m. (fst m, fileAt (tree s2) (snd m))) (firstSources (allMedia lv) []))))"
    and f3: "\<forall>q. unrelated ?dir q \<longrightarrow> nodeAt q (tree s') = nodeAt q (tree s2)"
    and w3: "wellFormed (tree s2) \<longrightarrow> wellFormed (tree s')"
    and fs: "\<forall>m \<in> set (firstSources (allMedia lv) []). \<exists>c. nodeAt (snd m) (tree s2) = Some (File c)"
    by blast+
  have src: "nodeAt (snd m) (tree s2) = nodeAt (snd m) (tree s)" if "m \<in> set (allMedia lv)" for m
    using un that f1 f2 by simp
  have mw: "mediaWrites (tree s2) lv = mediaWrites (tree s) lv"
    by (rule mediaWrites_cong) (rule src)
  have "nodeAt ?dir (tree s')
          = Some (Dir (foldl putEntry (foldl putEntry ds1 (docWrites lv)) (mediaWrites (tree s2) lv)))"
    using d3 by (simp only: mediaWrites_def)
  then show "nodeAt ?dir (tree s') = Some (Dir (stagedEntries (tree s) lv (entriesAt (tree s) ?dir)))"
    unfolding mw by (simp add: stagedEntries_def ds1)
  show "\<forall>q. unrelated ?dir q \<longrightarrow> nodeAt q (tree s') = nodeAt q (tree s)"
    using f1 f2 f3 by simp
  show "wellFormed (tree s) \<longrightarrow> wellFormed (tree s')"
    using mkdirSync_ok(4) [OF m] w2 w3 by blast
  show "\<forall>m \<in> set (firstSources (allMedia lv) []). \<exists>c. nodeAt (snd m) (tree s) = Some (File c)"
    using fs src firstSources_subset [of "allMedia lv" "[]"] by fastforce
qed

lemma unrelated_tempDir: "l \<noteq> ''_new_structure'' \<Longrightarrow> unrelated (tempDir @ [S]) (l # q)"
  unfolding tempDir_def by (simp add: unrelated_def)

lemma unrelated_tempDirs: "S \<noteq> S' \<Longrightarrow> unrelated (tempDir @ [S]) (tempDir @ [S'])"
  unfolding tempDir_def by (simp add: unrelated_def)

lemma stageable_sources:
  assumes "stageable ps" "p \<in> set ps" "m \<in> set (allMedia (snd p))"
  shows "unrelated (tempDir @ [S]) (snd m)"
proof -
  from assms obtain l q where "snd m = l # q" "l \<noteq> ''_new_structure''"
    unfolding stageable_def by blast
  then show ?thesis using unrelated_tempDir [of l S q] by simp
qed

lemma stageable_Cons:
  assumes "stageable (p # ps)"
  shows "stageable ps" and "snd p \<noteq> []" and "fst p \<notin> fst ` set ps"
    and "\<forall>m \<in> set (allMedia (snd p)). unrelated (tempDir @ [S]) (snd m)"
proof -
  show "stageable ps" "snd p \<noteq> []" "fst p \<notin> fst ` set ps"
    using assms by (auto simp: stageable_def)
  show "\<forall>m \<in> set (allMedia (snd p)). unrelated (tempDir @ [S]) (snd m)"
    using stageable_sources [OF assms, of p] by simp
qed

lemma stage_loop:
  "forEach ps (stageProject False) s = (Inr (), s') \<Longrightarrow> stageable ps \<Longrightarrow>
     (\<forall>p \<in> set ps. nodeAt (tempDir @ [fst p]) (tree s')
         = Some (Dir (stagedEntries (tree s) (snd p) (entriesAt (tree s) (tempDir @ [fst p])))))
     \<and> (\<forall>q. (\<forall>p \<in> set ps. unrelated (tempDir @ [fst p]) q) \<longrightarrow> nodeAt q (tree s') = nodeAt q (tree s))
     \<and> (wellFormed (tree s) \<longrightarrow> wellFormed (tree s'))
     \<and> (\<forall>p \<in> set ps. \<forall>m \<in> set (firstSources (allMedia (snd p)) []).
            \<exists>c. nodeAt (snd m) (tree s) = Some (File c))"
proof (induction ps arbitrary: s)
  case Nil
  then show ?case by (simp add: succeed_def)
next
  case (Cons p ps)
  obtain S lv where p: "p = (S, lv)" by (cases p)
  note st = stageable_Cons [OF Cons.prems(2)]
  from forEach_Cons_ok [OF Cons.prems(1)] obtain s1 where
    h: "stageProject False (S, lv) s = (Inr (), s1)"
    and r: "forEach ps (stageProject False) s1 = (Inr (), s')" unfolding p by blast
  have lv: "lv \<noteq> []" using st(2) p by simp
  have un: "\<forall>m \<in> set (allMedia lv). unrelated (tempDir @ [S]) (snd m)"
    using st(4) [of S] p by simp
  note hp = stageProject_ok [OF h lv un]
  from Cons.IH [OF r st(1)] have
    ih1: "\<forall>p \<in> set ps. nodeAt (tempDir @ [fst p]) (tree s')
         = Some (Dir (stagedEntries (tree s1) (snd p) (entriesAt (tree s1) (tempDir @ [fst p]))))"
    and ih2: "\<forall>q. (\<forall>p \<in> set ps. unrelated (tempDir @ [fst p]) q) \<longrightarrow> nodeAt q (tree s') = nodeAt q (tree s1)"
    and ih3: "wellFormed (tree s1) \<longrightarrow> wellFormed (tree s')"
    and ih4: "\<forall>p \<in> set ps. \<forall>m \<in> set (firstSources (allMedia (snd p)) []).
            \<exists>c. nodeAt (snd m) (tree s1) = Some (File c)"
    by blast+
  have srcs: "nodeAt (snd m) (tree s1) = nodeAt (snd m) (tree s)"
    if "p' \<in> set ps" "m \<in> set (allMedia (snd p'))" for p' m
    using hp(2) stageable_sources [OF st(1) that, of S] by blast
  have other: "S \<noteq> fst p'" if "p' \<in> set ps" for p'
    using st(3) that p by auto
  have 1: "nodeAt (tempDir @ [fst p']) (tree s')
         = Some (Dir (stagedEntries (tree s) (snd p') (entriesAt (tree s) (tempDir @ [fst p']))))"
    if "p' \<in> set (p # ps)" for p'
  proof (cases "p' = p")
    case True
    have "\<forall>p'' \<in> set ps. unrelated (tempDir @ [fst p'']) (tempDir @ [S])"
      using other unrelated_tempDirs by (metis)
    with ih2 have "nodeAt (tempDir @ [S]) (tree s') = nodeAt (tempDir @ [S]) (tree s1)" by blast
    with hp(1) show ?thesis using True p by simp
  next
    case False
    with that have in': "p' \<in> set ps" by simp
    have "nodeAt (tempDir @ [fst p']) (tree s1) = nodeAt (tempDir @ [fst p']) (tree s)"
      using hp(2) unrelated_tempDirs [OF other [OF in']] by blast
    then have e: "entriesAt (tree s1) (tempDir @ [fst p']) = entriesAt (tree s) (tempDir @ [fst p'])"
      by (rule entriesAt_cong)
    have "stagedEntries (tree s1) (snd p') ds = stagedEntries (tree s) (snd p') ds" for ds
      by (rule stagedEntries_cong) (rule srcs [OF in'])
    with ih1 in' e show ?thesis by simp
  qed
  have 2: "nodeAt q (tree s') = nodeAt q (tree s)"
    if "\<forall>p' \<in> set (p # ps). unrelated (tempDir @ [fst p']) q" for q
    using that ih2 hp(2) p by simp
  have 3: "wellFormed (tree s) \<longrightarrow> wellFormed (tree s')" using hp(3) ih3 by blast
  have 4: "\<exists>c. nodeAt (snd m) (tree s) = Some (File c)"
    if "p' \<in> set (p # ps)" "m \<in> set (firstSources (allMedia (snd p')) [])" for p' m
  proof (cases "p' = p")
    case True
    with hp(4) that(2) p show ?thesis by simp
  next
    case False
    with that have in': "p' \<in> set ps" by simp
    have "m \<in> set (allMedia (snd p'))" using that(2) firstSources_subset by blast
    note same = srcs [OF in' this]
    from ih4 in' that(2) obtain c where "nodeAt (snd m) (tree s1) = Some (File c)" by blast
    with same show ?thesis by metis
  qed
  from 1 2 3 4 show ?case by blast
qed

lemma nodeAt_under:
  "nodeAt [l] t' = nodeAt [l] t \<Longrightarrow> nodeAt (l # q) t' = nodeAt (l # q) t"
  using nodeAt_append [of "[l]" q t] nodeAt_append [of "[l]" q t'] by simp

lemma staging_ok:
  assumes "staging False ps s = (Inr (), s')" "stageable ps"
  shows "\<forall>p \<in> set ps. nodeAt (tempDir @ [fst p]) (tree s')
         = Some (Dir (stagedEntries (tree s) (snd p) (entriesAt (tree s) (tempDir @ [fst p]))))"
    and "\<forall>l q. l \<noteq> ''_new_structure'' \<longrightarrow> nodeAt (l # q) (tree s') = nodeAt (l # q) (tree s)"
    and "wellFormed (tree s) \<longrightarrow> wellFormed (tree s')"
    and "\<forall>p \<in> set ps. \<forall>m \<in> set (firstSources (allMedia (snd p)) []).
            \<exists>c. nodeAt (snd m) (tree s) = Some (File c)"
    and "ps \<noteq> [] \<longrightarrow> existsSync tempDir (tree s')"
proof -
  from assms(1) have "andThen (mkdirSync tempDir) (\<lambda>u. forEach ps (stageProject False)) s = (Inr (), s')"
    by (simp add: staging_def unlessDry_def)
  from andThen_ok [OF this] obtain s0 where
    m: "mkdirSync tempDir s = (Inr (), s0)"
    and l: "forEach ps (stageProject False) s0 = (Inr (), s')" by auto
  have out: "outside {''_new_structure''} s s'"
    using confined_staging [of False ps] assms(1) unfolding confined_def by (metis snd_conv)
  show fr: "\<forall>l q. l \<noteq> ''_new_structure'' \<longrightarrow> nodeAt (l # q) (tree s') = nodeAt (l # q) (tree s)"
    using out by (auto simp: outside_def intro: nodeAt_under)
  have f0: "nodeAt q (tree s0) = nodeAt q (tree s)" if "\<not> prefix q tempDir" for q
    using mkdirSync_ok(3) [OF m that] .
  from stage_loop [OF l assms(2)] have
    1: "\<forall>p \<in> set ps. nodeAt (tempDir @ [fst p]) (tree s')
         = Some (Dir (stagedEntries (tree s0) (snd p) (entriesAt (tree s0) (tempDir @ [fst p]))))"
    and 3: "wellFormed (tree s0) \<longrightarrow> wellFormed (tree s')"
    and 4: "\<forall>p \<in> set ps. \<forall>m \<in> set (firstSources (allMedia (snd p)) []).
            \<exists>c. nodeAt (snd m) (tree s0) = Some (File c)"
    by blast+
  have srcs: "nodeAt (snd m) (tree s0) = nodeAt (snd m) (tree s)"
    if "p \<in> set ps" "m \<in> set (allMedia (snd p))" for p m
  proof -
    from assms(2) that obtain l q where "snd m = l # q" "l \<noteq> ''_new_structure''"
      unfolding stageable_def by blast
    then show ?thesis using f0 [of "l # q"] by (simp add: tempDir_def)
  qed
  show "\<forall>p \<in> set ps. nodeAt (tempDir @ [fst p]) (tree s')
         = Some (Dir (stagedEntries (tree s) (snd p) (entriesAt (tree s) (tempDir @ [fst p]))))"
  proof
    fix p assume p: "p \<in> set ps"
    have "nodeAt (tempDir @ [fst p]) (tree s0) = nodeAt (tempDir @ [fst p]) (tree s)"
      by (rule f0) (simp add: tempDir_def)
    then have e: "entriesAt (tree s0) (tempDir @ [fst p]) = entriesAt (tree s) (tempDir @ [fst p])"
      by (rule entriesAt_cong)
    have "stagedEntries (tree s0) (snd p) ds = stagedEntries (tree s) (snd p) ds" for ds
      by (rule stagedEntries_cong) (rule srcs [OF p])
    with 1 p e show "nodeAt (tempDir @ [fst p]) (tree s')
         = Some (Dir (stagedEntries (tree s) (snd p) (entriesAt (tree s) (tempDir @ [fst p]))))"
      by simp
  qed
  show "wellFormed (tree s) \<longrightarrow> wellFormed (tree s')"
    using mkdirSync_ok(4) [OF m] 3 by blast
  show "\<forall>p \<in> set ps. \<forall>m \<in> set (firstSources (allMedia (snd p)) []).
            \<exists>c. nodeAt (snd m) (tree s) = Some (File c)"
  proof (intro ballI)
    fix p m assume p: "p \<in> set ps" and mm: "m \<in> set (firstSources (allMedia (snd p)) [])"
    then have "m \<in> set (allMedia (snd p))" using firstSources_subset by blast
    note same = srcs [OF p this]
    from 4 p mm obtain c where "nodeAt (snd m) (tree s0) = Some (File c)" by blast
    with same show "\<exists>c. nodeAt (snd m) (tree s) = Some (File c)" by metis
  qed
  show "ps \<noteq> [] \<longrightarrow> existsSync tempDir (tree s')"
  proof
    assume "ps \<noteq> []"
    then obtain p where p: "p \<in> set ps" by (cases ps) auto
    with \<open>\<forall>p \<in> set ps. nodeAt (tempDir @ [fst p]) (tree s')
         = Some (Dir (stagedEntries (tree s) (snd p) (entriesAt (tree s) (tempDir @ [fst p]))))\<close>
    have "nodeAt (tempDir @ [fst p]) (tree s') \<noteq> None" by simp
    then show "existsSync tempDir (tree s')"
      by (auto simp: existsSync_def nodeAt_append split: option.splits)
  qed
qed

section \<open>The backup of the language folders\<close>

lemma moveSync_ok:
  assumes "moveSync src dest s = (Inr u, s')"
  shows "\<exists>s1. mkdirSync (dirname dest) s = (Inr (), s1) \<and> rename src dest (tree s1) = Inr (tree s')"
proof -
  from andThen_ok [OF assms [unfolded moveSync_def]] obtain s1 where
    m: "mkdirSync (dirname dest) s = (Inr (), s1)"
    and c: "sysWrite (rename src dest) s1 = (Inr u, s')" by auto
  from sysWrite_ok [OF c] m show ?thesis by blast
qed

lemma rename_below_fails: "rename [x] [x, y] t \<noteq> Inr t'"
  by (auto simp: rename_def split: option.splits)

lemma backupLanguage_skip:
  "backupLanguage l s = (Inr u, s') \<Longrightarrow> \<not> existsSync [l] (tree s) \<Longrightarrow> s' = s"
  by (simp add: backupLanguage_def succeed_def)

lemma backupLanguage_move:
  assumes "backupLanguage l s = (Inr u, s')" "existsSync [l] (tree s)"
  shows "l \<noteq> ''_old_structure_backup''"
    and "nodeAt (backupDir @ [l]) (tree s') = nodeAt [l] (tree s)"
    and "nodeAt [l] (tree s') = None"
    and "unrelated [l] q \<Longrightarrow> unrelated (backupDir @ [l]) q \<Longrightarrow> \<not> prefix q backupDir
           \<Longrightarrow> nodeAt q (tree s') = nodeAt q (tree s)"
    and "wellFormed (tree s) \<Longrightarrow> wellFormed (tree s')"
proof -
  from assms have "moveSync [l] (backupDir @ [l]) s = (Inr u, s')"
    by (simp add: backupLanguage_def)
  from moveSync_ok [OF this] obtain s1 where
    m: "mkdirSync backupDir s = (Inr (), s1)"
    and r: "rename [l] (backupDir @ [l]) (tree s1) = Inr (tree s')"
    by (auto simp: dirname_def)
  show ne: "l \<noteq> ''_old_structure_backup''"
    using r rename_below_fails [of l l "tree s1" "tree s'"] by (auto simp: backupDir_def)
  then have un: "unrelated [l] (backupDir @ [l])"
    by (simp add: unrelated_def backupDir_def)
  have l1: "nodeAt [l] (tree s1) = nodeAt [l] (tree s)"
    using mkdirSync_ok(3) [OF m, of "[l]"] ne by (simp add: backupDir_def)
  from rename_result [OF r un] l1
  show "nodeAt (backupDir @ [l]) (tree s') = nodeAt [l] (tree s)" "nodeAt [l] (tree s') = None"
    by auto
  show "nodeAt q (tree s') = nodeAt q (tree s)"
    if "unrelated [l] q" "unrelated (backupDir @ [l]) q" "\<not> prefix q backupDir"
    using rename_frame [OF r that(1,2)] mkdirSync_ok(3) [OF m that(3)] by simp
  show "wellFormed (tree s) \<Longrightarrow> wellFormed (tree s')"
    using mkdirSync_ok(4) [OF m] rename_wellFormed [OF _ r] by blast
qed

lemma backupLanguage_frame:
  assumes "backupLanguage l s = (Inr u, s')"
  shows "y \<noteq> l \<Longrightarrow> y \<noteq> ''_old_structure_backup'' \<Longrightarrow> nodeAt (y # q) (tree s') = nodeAt (y # q) (tree s)"
    and "l' \<noteq> l \<Longrightarrow> nodeAt (backupDir @ l' # q) (tree s') = nodeAt (backupDir @ l' # q) (tree s)"
    and "wellFormed (tree s) \<Longrightarrow> wellFormed (tree s')"
    and "existsSync backupDir (tree s) \<Longrightarrow> existsSync backupDir (tree s')"
proof -
  show "nodeAt (y # q) (tree s') = nodeAt (y # q) (tree s)"
    if "y \<noteq> l" "y \<noteq> ''_old_structure_backup''"
  proof (cases "existsSync [l] (tree s)")
    case False
    with backupLanguage_skip [OF assms] show ?thesis by simp
  next
    case True
    show ?thesis
      by (rule backupLanguage_move(4) [OF assms True])
        (use that in \<open>simp_all add: unrelated_def backupDir_def\<close>)
  qed
  show "nodeAt (backupDir @ l' # q) (tree s') = nodeAt (backupDir @ l' # q) (tree s)" if "l' \<noteq> l"
  proof (cases "existsSync [l] (tree s)")
    case False
    with backupLanguage_skip [OF assms] show ?thesis by simp
  next
    case True
    have "l \<noteq> ''_old_structure_backup''" by (rule backupLanguage_move(1) [OF assms True])
    then show ?thesis
      by (intro backupLanguage_move(4) [OF assms True])
        (use that in \<open>simp_all add: unrelated_def backupDir_def\<close>)
  qed
  show "wellFormed (tree s) \<Longrightarrow> wellFormed (tree s')"
    using backupLanguage_skip [OF assms] backupLanguage_move(5) [OF assms]
    by (cases "existsSync [l] (tree s)") auto
  show "existsSync backupDir (tree s) \<Longrightarrow> existsSync backupDir (tree s')"
  proof (cases "existsSync [l] (tree s)")
    case False
    with backupLanguage_skip [OF assms] show "existsSync backupDir (tree s) \<Longrightarrow> existsSync backupDir (tree s')"
      by simp
  next
    case True
    from backupLanguage_move(2) [OF assms True] True
    have "nodeAt (backupDir @ [l]) (tree s') \<noteq> None" by (simp add: existsSync_def)
    then show "existsSync backupDir (tree s')"
      by (auto simp: existsSync_def nodeAt_append split: option.splits)
  qed
qed

lemma backup_loop_reserved:
  "forEach ls backupLanguage s = (Inr (), s') \<Longrightarrow> ''_old_structure_backup'' \<in> set ls
     \<Longrightarrow> \<not> existsSync backupDir (tree s)"
proof (induction ls arbitrary: s)
  case Nil
  then show ?case by simp
next
  case (Cons l ls)
  from forEach_Cons_ok [OF Cons.prems(1)] obtain s1 where
    h: "backupLanguage l s = (Inr (), s1)"
    and r: "forEach ls backupLanguage s1 = (Inr (), s')" by blast
  show ?case
  proof (cases "l = ''_old_structure_backup''")
    case True
    then show ?thesis using backupLanguage_move(1) [OF h] by (auto simp: backupDir_def)
  next
    case False
    with Cons.prems(2) have "''_old_structure_backup'' \<in> set ls" by simp
    from Cons.IH [OF r this] backupLanguage_frame(4) [OF h] show ?thesis by blast
  qed
qed

lemma backup_loop:
  "forEach ls backupLanguage s = (Inr (), s') \<Longrightarrow> distinct ls
   \<Longrightarrow> (\<forall>y q. y \<notin> set ls \<and> y \<noteq> ''_old_structure_backup''
          \<longrightarrow> nodeAt (y # q) (tree s') = nodeAt (y # q) (tree s))
     \<and> (\<forall>l \<in> set ls. existsSync [l] (tree s)
          \<longrightarrow> nodeAt (backupDir @ [l]) (tree s') = nodeAt [l] (tree s))
     \<and> (\<forall>l \<in> set ls. l \<noteq> ''_old_structure_backup'' \<longrightarrow> \<not> existsSync [l] (tree s'))
     \<and> (\<forall>l q. l \<notin> set ls
          \<longrightarrow> nodeAt (backupDir @ l # q) (tree s') = nodeAt (backupDir @ l # q) (tree s))
     \<and> (wellFormed (tree s) \<longrightarrow> wellFormed (tree s'))"
proof (induction ls arbitrary: s)
  case Nil
  then show ?case by (simp add: succeed_def)
next
  case (Cons l ls)
  from forEach_Cons_ok [OF Cons.prems(1)] obtain s1 where
    h: "backupLanguage l s = (Inr (), s1)"
    and r: "forEach ls backupLanguage s1 = (Inr (), s')" by blast
  from Cons.prems(2) have d: "distinct ls" and nl: "l \<notin> set ls" by auto
  note fr = backupLanguage_frame [OF h]
  from Cons.IH [OF r d] have
    ihA: "\<And>y q. y \<notin> set ls \<Longrightarrow> y \<noteq> ''_old_structure_backup''
          \<Longrightarrow> nodeAt (y # q) (tree s') = nodeAt (y # q) (tree s1)"
    and ihB: "\<And>l. l \<in> set ls \<Longrightarrow> existsSync [l] (tree s1)
          \<Longrightarrow> nodeAt (backupDir @ [l]) (tree s') = nodeAt [l] (tree s1)"
    and ihC: "\<And>l. l \<in> set ls \<Longrightarrow> l \<noteq> ''_old_structure_backup'' \<Longrightarrow> \<not> existsSync [l] (tree s')"
    and ihE: "\<And>l q. l \<notin> set ls
          \<Longrightarrow> nodeAt (backupDir @ l # q) (tree s') = nodeAt (backupDir @ l # q) (tree s1)"
    and ihW: "wellFormed (tree s1) \<longrightarrow> wellFormed (tree s')"
    by blast+
  have A: "nodeAt (y # q) (tree s') = nodeAt (y # q) (tree s)"
    if "y \<notin> set (l # ls)" "y \<noteq> ''_old_structure_backup''" for y q
    using that ihA [of y q] fr(1) [of y q] by simp
  have B: "nodeAt (backupDir @ [l']) (tree s') = nodeAt [l'] (tree s)"
    if "l' \<in> set (l # ls)" "existsSync [l'] (tree s)" for l'
  proof (cases "l' = l")
    case True
    from backupLanguage_move(2) [OF h] that(2) True ihE [OF nl, of "[]"]
    show ?thesis by simp
  next
    case False
    with that(1) have in': "l' \<in> set ls" by simp
    have nb: "l' \<noteq> ''_old_structure_backup''"
    proof
      assume b: "l' = ''_old_structure_backup''"
      then have "''_old_structure_backup'' \<in> set (l # ls)" using that(1) by simp
      from backup_loop_reserved [OF Cons.prems(1) this] that(2) b show False
        by (simp add: backupDir_def)
    qed
    have "nodeAt [l'] (tree s1) = nodeAt [l'] (tree s)" using fr(1) [OF False nb] .
    with ihB [OF in'] that(2) show ?thesis by (simp add: existsSync_def)
  qed
  have C: "\<not> existsSync [l'] (tree s')" if "l' \<in> set (l # ls)" "l' \<noteq> ''_old_structure_backup''" for l'
  proof (cases "l' = l")
    case True
    have "nodeAt [l] (tree s1) = None"
      using backupLanguage_move(3) [OF h] backupLanguage_skip [OF h]
      by (cases "existsSync [l] (tree s)") (auto simp: existsSync_def)
    with ihA [OF nl, of "[]"] that(2) True show ?thesis by (simp add: existsSync_def)
  next
    case False
    with that ihC show ?thesis by simp
  qed
  have E: "nodeAt (backupDir @ l' # q) (tree s') = nodeAt (backupDir @ l' # q) (tree s)"
    if "l' \<notin> set (l # ls)" for l' q
    using that ihE [of l' q] fr(2) [of l' q] by simp
  have W: "wellFormed (tree s) \<longrightarrow> wellFormed (tree s')" using fr(3) ihW by blast
  from A B C E W show ?case by blast
qed

section \<open>The promotion of the staged items\<close>

lemma promote_ok:
  assumes "promote d s = (Inr u, s')"
  shows "d \<noteq> ''_new_structure''"
    and "nodeAt [d] (tree s') = nodeAt (tempDir @ [d]) (tree s)"
    and "nodeAt [d, x] (tree s) = None"
    and "unrelated (tempDir @ [d]) q \<Longrightarrow> unrelated [d] q \<Longrightarrow> nodeAt q (tree s') = nodeAt q (tree s)"
    and "wellFormed (tree s) \<Longrightarrow> wellFormed (tree s')"
proof -
  from moveSync_ok [OF assms [unfolded promote_def]] obtain s1 where
    m: "mkdirSync [] s = (Inr (), s1)"
    and r: "rename (tempDir @ [d]) [d] (tree s1) = Inr (tree s')"
    by (auto simp: dirname_def)
  have t1: "tree s1 = tree s" using mkdirSync_ok(2) [OF m] by (simp add: existsSync_def)
  have ne: "tempDir @ [d] \<noteq> [d]" by (simp add: tempDir_def)
  from r obtain n where src: "nodeAt (tempDir @ [d]) (tree s) = Some n"
    unfolding t1 by (auto simp: rename_def split: option.splits)
  show d: "d \<noteq> ''_new_structure''"
  proof
    assume "d = ''_new_structure''"
    then have "nodeAt ([d] @ [''_new_structure'']) (tree s) \<noteq> None" using src by (simp add: tempDir_def)
    from rename_nonempty_fails [OF this ne] r t1 show False by simp
  qed
  then have un: "unrelated (tempDir @ [d]) [d]" by (simp add: unrelated_def tempDir_def)
  from rename_result [OF r un] show "nodeAt [d] (tree s') = nodeAt (tempDir @ [d]) (tree s)"
    unfolding t1 by auto
  show "nodeAt [d, x] (tree s) = None"
  proof (rule ccontr)
    assume "nodeAt [d, x] (tree s) \<noteq> None"
    then have "nodeAt ([d] @ [x]) (tree s) \<noteq> None" by simp
    from rename_nonempty_fails [OF this ne] r t1 show False by simp
  qed
  show "unrelated (tempDir @ [d]) q \<Longrightarrow> unrelated [d] q \<Longrightarrow> nodeAt q (tree s') = nodeAt q (tree s)"
    using rename_frame [OF r] t1 by simp
  show "wellFormed (tree s) \<Longrightarrow> wellFormed (tree s')"
    using rename_wellFormed [OF _ r] t1 by simp
qed

lemma promote_loop:
  "forEach ds promote s = (Inr (), s') \<Longrightarrow> distinct ds
   \<Longrightarrow> (\<forall>d \<in> set ds. d \<noteq> ''_new_structure'')
     \<and> (\<forall>d \<in> set ds. nodeAt [d] (tree s') = nodeAt (tempDir @ [d]) (tree s))
     \<and> (\<forall>d \<in> set ds. \<forall>x. nodeAt [d, x] (tree s) = None)
     \<and> (\<forall>y q. y \<notin> set ds \<and> y \<noteq> ''_new_structure''
            \<longrightarrow> nodeAt (y # q) (tree s') = nodeAt (y # q) (tree s))
     \<and> (wellFormed (tree s) \<longrightarrow> wellFormed (tree s'))"
proof (induction ds arbitrary: s)
  case Nil
  then show ?case by (simp add: succeed_def)
next
  case (Cons d ds)
  from forEach_Cons_ok [OF Cons.prems(1)] obtain s1 where
    h: "promote d s = (Inr (), s1)"
    and r: "forEach ds promote s1 = (Inr (), s')" by blast
  from Cons.prems(2) have dd: "distinct ds" and nd: "d \<notin> set ds" by auto
  note p = promote_ok [OF h]
  note ih = Cons.IH [OF r dd]
  from ih have ihA1: "\<And>d. d \<in> set ds \<Longrightarrow> d \<noteq> ''_new_structure''" by simp
  from ih have ihA2: "\<And>d. d \<in> set ds \<Longrightarrow> nodeAt [d] (tree s') = nodeAt (tempDir @ [d]) (tree s1)"
    by simp
  from ih have ihA3: "\<And>d x. d \<in> set ds \<Longrightarrow> nodeAt [d, x] (tree s1) = None" by simp
  from ih have ihB: "\<And>y q. y \<notin> set ds \<Longrightarrow> y \<noteq> ''_new_structure''
            \<Longrightarrow> nodeAt (y # q) (tree s') = nodeAt (y # q) (tree s1)" by simp
  from ih have ihW: "wellFormed (tree s1) \<longrightarrow> wellFormed (tree s')" by simp
  have A1: "d' \<noteq> ''_new_structure''" if "d' \<in> set (d # ds)" for d'
    using that p(1) ihA1 by auto
  have A2: "nodeAt [d'] (tree s') = nodeAt (tempDir @ [d']) (tree s)" if "d' \<in> set (d # ds)" for d'
  proof (cases "d' = d")
    case True
    from ihB [OF nd p(1), of "[]"] p(2) True show ?thesis by simp
  next
    case False
    with that have in': "d' \<in> set ds" by simp
    have "unrelated (tempDir @ [d]) (tempDir @ [d'])" "unrelated [d] (tempDir @ [d'])"
      using False p(1) by (auto simp: unrelated_def tempDir_def)
    then have "nodeAt (tempDir @ [d']) (tree s1) = nodeAt (tempDir @ [d']) (tree s)"
      by (rule p(4))
    with ihA2 [OF in'] show ?thesis by simp
  qed
  have A3: "nodeAt [d', x] (tree s) = None" if "d' \<in> set (d # ds)" for d' x
  proof (cases "d' = d")
    case True
    with p(3) show ?thesis by simp
  next
    case False
    with that have in': "d' \<in> set ds" by simp
    have "unrelated (tempDir @ [d]) [d', x]" "unrelated [d] [d', x]"
      using False ihA1 [OF in'] by (auto simp: unrelated_def tempDir_def)
    then have "nodeAt [d', x] (tree s1) = nodeAt [d', x] (tree s)"
      by (rule p(4))
    with ihA3 [OF in'] show ?thesis by simp
  qed
  have B: "nodeAt (y # q) (tree s') = nodeAt (y # q) (tree s)"
    if "y \<notin> set (d # ds)" "y \<noteq> ''_new_structure''" for y q
  proof -
    have "unrelated (tempDir @ [d]) (y # q)" "unrelated [d] (y # q)"
      using that by (auto simp: unrelated_def tempDir_def)
    then have "nodeAt (y # q) (tree s1) = nodeAt (y # q) (tree s)"
      by (rule p(4))
    with ihB [of y q] that show ?thesis by simp
  qed
  have W: "wellFormed (tree s) \<longrightarrow> wellFormed (tree s')" using p(5) ihW by blast
  show ?case
  proof (intro conjI ballI allI impI)
    fix d' assume "d' \<in> set (d # ds)"
    then show "d' \<noteq> ''_new_structure''" by (rule A1)
  next
    fix d' assume "d' \<in> set (d # ds)"
    then show "nodeAt [d'] (tree s') = nodeAt (tempDir @ [d']) (tree s)" by (rule A2)
  next
    fix d' x assume "d' \<in> set (d # ds)"
    then show "nodeAt [d', x] (tree s) = None" by (rule A3)
  next
    fix y q assume "y \<notin> set (d # ds) \<and> y \<noteq> ''_new_structure''"
    then show "nodeAt (y # q) (tree s') = nodeAt (y # q) (tree s)" using B by blast
  next
    assume "wellFormed (tree s)"
    with W show "wellFormed (tree s')" by blast
  qed
qed

lemma removeSync_ok:
  assumes "removeSync p s = (Inr u, s')"
  shows "unrelated p q \<Longrightarrow> nodeAt q (tree s') = nodeAt q (tree s)"
proof -
  assume un: "unrelated p q"
  show ?thesis
  proof (cases "existsSync p (tree s)")
    case False
    with assms show ?thesis by (simp add: removeSync_def succeed_def)
  next
    case True
    with assms have "rm p (tree s) = Inr (tree s')"
      by (auto simp: removeSync_def dest: sysWrite_ok)
    with True have "alter p unlink (tree s) = Inr (tree s')" by (simp add: rm_def)
    from alter_frame' [OF this un] show ?thesis .
  qed
qed

lemma readDirs_ok:
  assumes "readDirs p s = (Inr ds, s')"
  shows "s' = s"
    and "\<exists>es. nodeAt p (tree s) = Some (Dir es) \<and> ds = map fst (filter (\<lambda>(name, n). isDirectory n) es)"
  using assms
  by (auto simp: readDirs_def readdirSync_def split: option.splits node.splits sum.splits)

lemma wellFormed_entries:
  "wellFormed t \<Longrightarrow> nodeAt p t = Some (Dir es) \<Longrightarrow> distinct (map fst es)"
  using wellFormed_nodeAt [of t p "Dir es"] by simp

lemma dir_listed:
  assumes "nodeAt p t = Some (Dir es)" "nodeAt (p @ [x]) t = Some (Dir ds)"
  shows "x \<in> set (map fst (filter (\<lambda>(name, n). isDirectory n) es))"
proof -
  from assms have "map_of es x = Some (Dir ds)" by (simp add: nodeAt_snoc)
  then have "(x, Dir ds) \<in> set es" by (rule map_of_SomeD)
  then have "(x, Dir ds) \<in> set (filter (\<lambda>(name, n). isDirectory n) es)"
    by (simp add: isDirectory_def)
  then show ?thesis by force
qed

section \<open>A successful live run\<close>

lemma staging_frame:
  assumes "staging d ps s = (r, s')" "l \<noteq> ''_new_structure''"
  shows "nodeAt (l # q) (tree s') = nodeAt (l # q) (tree s)"
proof -
  have "outside {''_new_structure''} s s'"
    using confined_staging [of d ps] assms(1) unfolding confined_def by (metis snd_conv)
  then show ?thesis using assms(2) by (auto simp: outside_def intro: nodeAt_under)
qed

lemma migrate_ok:
  assumes run: "migrate False ls ps s = (Inr r, s')"
    and wf: "wellFormed (tree s)"
    and dl: "distinct ls" and ex: "\<forall>l \<in> set ls. existsSync [l] (tree s)"
    and dp: "distinct (map fst ps)"
    and src: "\<forall>p \<in> set ps. snd p \<noteq> []
               \<and> (\<forall>m \<in> set (allMedia (snd p)). \<exists>l q. snd m = l # q \<and> l \<in> set ls)"
  shows "''_new_structure'' \<notin> set ls"
    and "\<forall>l \<in> set ls. nodeAt (backupDir @ [l]) (tree s') = nodeAt [l] (tree s)"
    and "\<forall>p \<in> set ps. nodeAt [fst p] (tree s')
           = Some (Dir (stagedEntries (tree s) (snd p) (entriesAt (tree s) (tempDir @ [fst p]))))"
    and "\<forall>p \<in> set ps. \<forall>m \<in> set (firstSources (allMedia (snd p)) []).
            \<exists>c. nodeAt (snd m) (tree s) = Some (File c)"
proof -
  from andThen_ok [OF run [unfolded migrate_def]] obtain s1 where
    stg: "staging False ps s = (Inr (), s1)"
    and rest: "andThen (destructive ls) (\<lambda>u. succeed MigrationComplete) s1 = (Inr r, s')"
    by auto
  from andThen_ok [OF rest] have des: "destructive ls s1 = (Inr (), s')"
    by (auto simp: succeed_def)
  from andThen_ok [OF des [unfolded destructive_def]] obtain s2 where
    bk: "forEach ls backupLanguage s1 = (Inr (), s2)"
    and rest2: "andThen (readDirs tempDir)
         (\<lambda>newProjectDirs. andThen (forEach newProjectDirs promote) (\<lambda>u. removeSync tempDir)) s2
          = (Inr (), s')" by auto
  from andThen_ok [OF rest2] obtain nds s2' where
    rd: "readDirs tempDir s2 = (Inr nds, s2')"
    and rest3: "andThen (forEach nds promote) (\<lambda>u. removeSync tempDir) s2' = (Inr (), s')"
    by auto
  from readDirs_ok [OF rd] obtain es where s2': "s2' = s2"
    and es: "nodeAt tempDir (tree s2) = Some (Dir es)"
    and nds: "nds = map fst (filter (\<lambda>(name, n). isDirectory n) es)" by blast
  from andThen_ok [OF rest3] obtain s3 where
    pr: "forEach nds promote s2 = (Inr (), s3)"
    and rmv: "removeSync tempDir s3 = (Inr (), s')" unfolding s2' by auto
  note f1 = staging_frame [OF stg]
  have nb: "''_old_structure_backup'' \<notin> set ls"
  proof
    assume b: "''_old_structure_backup'' \<in> set ls"
    with ex have "existsSync backupDir (tree s)" by (auto simp: backupDir_def)
    moreover have "nodeAt backupDir (tree s1) = nodeAt backupDir (tree s)"
      unfolding backupDir_def by (rule f1) simp
    ultimately have "existsSync backupDir (tree s1)" by (simp add: existsSync_def)
    with backup_loop_reserved [OF bk b] show False by simp
  qed
  note bl = backup_loop [OF bk dl]
  from bl have blA: "\<And>y q. y \<notin> set ls \<Longrightarrow> y \<noteq> ''_old_structure_backup''
          \<Longrightarrow> nodeAt (y # q) (tree s2) = nodeAt (y # q) (tree s1)" by simp
  from bl have blB: "\<And>l. l \<in> set ls \<Longrightarrow> existsSync [l] (tree s1)
          \<Longrightarrow> nodeAt (backupDir @ [l]) (tree s2) = nodeAt [l] (tree s1)" by simp
  from bl have blC: "\<And>l. l \<in> set ls \<Longrightarrow> l \<noteq> ''_old_structure_backup''
          \<Longrightarrow> \<not> existsSync [l] (tree s2)" by simp
  from bl have blW: "wellFormed (tree s1) \<Longrightarrow> wellFormed (tree s2)" by simp
  show nn: "''_new_structure'' \<notin> set ls"
  proof
    assume "''_new_structure'' \<in> set ls"
    then have "\<not> existsSync [''_new_structure''] (tree s2)" by (rule blC) simp
    with es show False by (simp add: existsSync_def tempDir_def)
  qed
  have sta: "stageable ps"
    unfolding stageable_def
  proof (intro conjI ballI)
    show "distinct (map fst ps)" by (rule dp)
  next
    fix p assume "p \<in> set ps"
    with src show "snd p \<noteq> []" by blast
  next
    fix p m assume "p \<in> set ps" "m \<in> set (allMedia (snd p))"
    with src obtain l q where "snd m = l # q" "l \<in> set ls" by blast
    with nn show "\<exists>l q. snd m = l # q \<and> l \<noteq> ''_new_structure''" by auto
  qed
  note so = staging_ok [OF stg sta]
  show "\<forall>p \<in> set ps. \<forall>m \<in> set (firstSources (allMedia (snd p)) []).
            \<exists>c. nodeAt (snd m) (tree s) = Some (File c)" by (rule so(4))
  have w1: "wellFormed (tree s1)" using so(3) wf by blast
  have w2: "wellFormed (tree s2)" using blW w1 by blast
  have f2: "nodeAt (''_new_structure'' # q) (tree s2) = nodeAt (''_new_structure'' # q) (tree s1)" for q
    by (rule blA [OF nn]) simp
  have dn: "distinct nds"
    unfolding nds using wellFormed_entries [OF w2 es] by (rule distinct_map_filter)
  note pl = promote_loop [OF pr dn]
  from pl have plA1: "\<And>d. d \<in> set nds \<Longrightarrow> d \<noteq> ''_new_structure''" by simp
  from pl have plA2: "\<And>d. d \<in> set nds \<Longrightarrow> nodeAt [d] (tree s3) = nodeAt (tempDir @ [d]) (tree s2)"
    by simp
  from pl have plA3: "\<And>d x. d \<in> set nds \<Longrightarrow> nodeAt [d, x] (tree s2) = None" by simp
  from pl have plB: "\<And>y q. y \<notin> set nds \<Longrightarrow> y \<noteq> ''_new_structure''
            \<Longrightarrow> nodeAt (y # q) (tree s3) = nodeAt (y # q) (tree s2)" by simp
  have backed: "nodeAt (backupDir @ [l]) (tree s2) = nodeAt [l] (tree s)" if "l \<in> set ls" for l
  proof -
    have l: "l \<noteq> ''_new_structure''" using that nn by auto
    have "nodeAt [l] (tree s1) = nodeAt [l] (tree s)" by (rule f1 [OF l])
    moreover from this ex that have "existsSync [l] (tree s1)" by (simp add: existsSync_def)
    ultimately show ?thesis using blB [OF that] by simp
  qed
  have bn: "''_old_structure_backup'' \<notin> set nds" if "l \<in> set ls" for l
  proof
    assume "''_old_structure_backup'' \<in> set nds"
    then have "nodeAt [''_old_structure_backup'', l] (tree s2) = None" by (rule plA3)
    moreover have "nodeAt [l] (tree s) \<noteq> None" using ex that by (simp add: existsSync_def)
    ultimately show False using backed [OF that] by (simp add: backupDir_def)
  qed
  show "\<forall>l \<in> set ls. nodeAt (backupDir @ [l]) (tree s') = nodeAt [l] (tree s)"
  proof
    fix l assume l: "l \<in> set ls"
    have "nodeAt (backupDir @ [l]) (tree s') = nodeAt (backupDir @ [l]) (tree s3)"
      by (rule removeSync_ok [OF rmv]) (simp add: unrelated_def tempDir_def backupDir_def)
    also have "\<dots> = nodeAt (backupDir @ [l]) (tree s2)"
      unfolding backupDir_def append_Cons append_Nil by (rule plB [OF bn [OF l]]) simp
    finally show "nodeAt (backupDir @ [l]) (tree s') = nodeAt [l] (tree s)"
      using backed [OF l] by simp
  qed
  show "\<forall>p \<in> set ps. nodeAt [fst p] (tree s')
           = Some (Dir (stagedEntries (tree s) (snd p) (entriesAt (tree s) (tempDir @ [fst p]))))"
  proof
    fix p assume p: "p \<in> set ps"
    let ?staged = "stagedEntries (tree s) (snd p) (entriesAt (tree s) (tempDir @ [fst p]))"
    have "nodeAt (tempDir @ [fst p]) (tree s1) = Some (Dir ?staged)" using so(1) p by blast
    then have a2: "nodeAt (tempDir @ [fst p]) (tree s2) = Some (Dir ?staged)"
      using f2 [of "[fst p]"] by (simp add: tempDir_def)
    from dir_listed [OF es a2] have inn: "fst p \<in> set nds" by (simp add: nds)
    note ne = plA1 [OF inn] and a3 = plA2 [OF inn]
    have "nodeAt [fst p] (tree s') = nodeAt [fst p] (tree s3)"
      by (rule removeSync_ok [OF rmv]) (use ne in \<open>auto simp: unrelated_def tempDir_def\<close>)
    with a3 a2 show "nodeAt [fst p] (tree s') = Some (Dir ?staged)" by simp
  qed
qed

section \<open>What the collector records\<close>

lemma collectedFrom_Nil: "collectedFrom rc t q []"
  by (simp add: collectedFrom_def)

lemma collectedFrom_keys:
  assumes "collectedFrom rc t q ps" "p \<in> set ps"
  shows "fst ` set (snd p) \<subseteq> set q"
proof -
  from assms have "map fst (snd p) = filter (\<lambda>l. l \<in> fst ` set (snd p)) q"
    by (simp add: collectedFrom_def)
  then have "set (map fst (snd p)) \<subseteq> set q" by (metis filter_is_subset)
  then show ?thesis by simp
qed

lemma collectedFrom_snoc:
  assumes "collectedFrom rc t q ps" "l \<notin> set q"
  shows "collectedFrom rc t (q @ [l]) ps"
proof -
  have "map fst (snd p) = filter (\<lambda>l. l \<in> fst ` set (snd p)) (q @ [l])" if p: "p \<in> set ps" for p
  proof -
    have "l \<notin> fst ` set (snd p)" using collectedFrom_keys [OF assms(1) p] assms(2) by blast
    with assms(1) p show ?thesis by (simp add: collectedFrom_def)
  qed
  with assms(1) show ?thesis by (simp add: collectedFrom_def)
qed

lemma order_after_update:
  assumes e: "map fst old = filter (\<lambda>l. l \<in> fst ` set old) (q @ [lang])" and n: "lang \<notin> set q"
  shows "map fst (AList.update lang d old)
           = filter (\<lambda>l. l \<in> fst ` set (AList.update lang d old)) (q @ [lang])"
proof -
  have k: "fst ` set (AList.update lang d old) = insert lang (fst ` set old)"
    by (simp add: AList.dom_update)
  have f: "filter (\<lambda>l. l \<in> insert lang (fst ` set old)) q = filter (\<lambda>l. l \<in> fst ` set old) q"
    using n by (intro filter_cong) auto
  show ?thesis
  proof (cases "lang \<in> fst ` set old")
    case True
    then have "map fst (AList.update lang d old) = map fst old" by (simp add: AList.update_keys)
    with e True k f show ?thesis by simp
  next
    case False
    then have "map fst (AList.update lang d old) = map fst old @ [lang]"
      by (simp add: AList.update_keys)
    with e False k f show ?thesis by simp
  qed
qed

lemma setProject_collected:
  assumes c: "collectedFrom rc t (q @ [lang]) ps" and n: "lang \<notin> set q"
    and d: "docOf rc t lang slug d"
  shows "collectedFrom rc t (q @ [lang]) (setProject slug lang d ps)"
proof -
  define old where "old = (case map_of ps slug of None \<Rightarrow> [] | Some lv \<Rightarrow> lv)"
  define new where "new = AList.update lang d old"
  have sp: "setProject slug lang d ps = AList.update slug new ps"
    by (simp add: setProject_def old_def new_def)
  have old: "old = [] \<or> (slug, old) \<in> set ps"
    unfolding old_def by (auto split: option.splits dest: map_of_SomeD)
  have inv1: "map fst (snd p) = filter (\<lambda>l. l \<in> fst ` set (snd p)) (q @ [lang])"
    if "p \<in> set ps" for p using c that unfolding collectedFrom_def by blast
  have inv2: "docOf rc t (fst v) (fst p) (snd v)" if "p \<in> set ps" "v \<in> set (snd p)" for p v
    using c that unfolding collectedFrom_def by blast
  have o1: "map fst old = filter (\<lambda>l. l \<in> fst ` set old) (q @ [lang])"
    using old
  proof
    assume "old = []"
    then show ?thesis by simp
  next
    assume "(slug, old) \<in> set ps"
    from inv1 [OF this] show ?thesis by simp
  qed
  have o2: "docOf rc t (fst v) slug (snd v)" if "v \<in> set old" for v
    using old
  proof
    assume "old = []"
    with that show ?thesis by simp
  next
    assume "(slug, old) \<in> set ps"
    from inv2 [OF this] that show ?thesis by simp
  qed
  have n1: "new \<noteq> []" by (simp add: new_def)
  have n2: "map fst new = filter (\<lambda>l. l \<in> fst ` set new) (q @ [lang])"
    unfolding new_def using o1 n by (rule order_after_update)
  have n3: "docOf rc t (fst v) slug (snd v)" if "v \<in> set new" for v
  proof -
    from that have "v = (lang, d) \<or> v \<in> set old"
      unfolding new_def using set_update_subset [of lang d old] by blast
    then show ?thesis using d o2 by auto
  qed
  have dk: "distinct (map fst (AList.update slug new ps))"
    using c by (simp add: collectedFrom_def AList.distinct_update)
  have each: "snd p \<noteq> []
            \<and> map fst (snd p) = filter (\<lambda>l. l \<in> fst ` set (snd p)) (q @ [lang])
            \<and> (\<forall>v \<in> set (snd p). docOf rc t (fst v) (fst p) (snd v))"
    if "p \<in> set (AList.update slug new ps)" for p
  proof -
    from that have "p = (slug, new) \<or> p \<in> set ps"
      using set_update_subset [of slug new ps] by blast
    then show ?thesis
    proof
      assume "p = (slug, new)"
      then show ?thesis using n1 n2 n3 by simp
    next
      assume p: "p \<in> set ps"
      have "snd p \<noteq> []" using c p unfolding collectedFrom_def by blast
      with inv1 [OF p] inv2 [OF p] show ?thesis by blast
    qed
  qed
  show ?thesis unfolding sp collectedFrom_def using dk each by blast
qed

lemma collectSlugs_collected:
  "collectSlugs rc lang es ps = Inr ps' \<Longrightarrow> collectedFrom rc t (q @ [lang]) ps \<Longrightarrow> lang \<notin> set q
   \<Longrightarrow> (\<forall>e \<in> set es. nodeAt [lang, fst e] t = Some (snd e))
   \<Longrightarrow> collectedFrom rc t (q @ [lang]) ps'"
proof (induction es arbitrary: ps)
  case Nil
  then show ?case by simp
next
  case (Cons e es)
  obtain slug m where e: "e = (slug, m)" by (cases e)
  from Cons.prems(4) have rest: "\<forall>e \<in> set es. nodeAt [lang, fst e] t = Some (snd e)"
    and here: "nodeAt [lang, slug] t = Some m" using e by auto
  show ?case
  proof (cases m)
    case (File c)
    with Cons.prems(1) have "collectSlugs rc lang es ps = Inr ps'" by (simp add: e)
    from Cons.IH [OF this Cons.prems(2,3) rest] show ?thesis .
  next
    case (Dir entries)
    show ?thesis
    proof (cases "map_of entries ''index.md''")
      case None
      with Cons.prems(1) Dir have "collectSlugs rc lang es ps = Inr ps'" by (simp add: e)
      from Cons.IH [OF this Cons.prems(2,3) rest] show ?thesis .
    next
      case (Some ix)
      show ?thesis
      proof (cases ix)
        case (Dir x)
        with Cons.prems(1) \<open>m = Dir entries\<close> Some show ?thesis by (simp add: e)
      next
        case (File c)
        let ?d = "\<lparr>content = rc c, files = filter (\<lambda>f. f \<noteq> ''index.md'') (map fst entries),
                    sourcePath = [lang, slug]\<rparr>"
        from Cons.prems(1) Dir Some File
        have r: "collectSlugs rc lang es (setProject slug lang ?d ps) = Inr ps'" by (simp add: e)
        have "docOf rc t lang slug ?d"
          unfolding docOf_def using here Dir Some File by auto
        from setProject_collected [OF Cons.prems(2,3) this]
        have "collectedFrom rc t (q @ [lang]) (setProject slug lang ?d ps)" .
        from Cons.IH [OF r this Cons.prems(3) rest] show ?thesis .
      qed
    qed
  qed
qed

lemma listing_nodes:
  assumes "wellFormed t" "nodeAt p t = Some (Dir es)" "e \<in> set es"
  shows "nodeAt (p @ [fst e]) t = Some (snd e)"
proof -
  have d: "distinct (map fst es)" using assms(1,2) by (rule wellFormed_entries)
  have "(fst e, snd e) \<in> set es" using assms(3) by simp
  with d have "map_of es (fst e) = Some (snd e)" by (rule map_of_is_SomeI)
  with assms(2) show ?thesis by (simp add: nodeAt_snoc)
qed

lemma collectLangs_collected:
  "collectLangs rc langs t ps = Inr ps' \<Longrightarrow> collectedFrom rc t q ps \<Longrightarrow> distinct (q @ langs)
   \<Longrightarrow> wellFormed t \<Longrightarrow> collectedFrom rc t (q @ langs) ps'"
proof (induction langs arbitrary: ps q)
  case Nil
  then show ?case by simp
next
  case (Cons lang langs)
  from Cons.prems(3) have n: "lang \<notin> set q" and d: "distinct ((q @ [lang]) @ langs)" by auto
  have c1: "collectedFrom rc t (q @ [lang]) ps" using Cons.prems(2) n by (rule collectedFrom_snoc)
  show ?case
  proof (cases "existsSync [lang] t")
    case False
    with Cons.prems(1) have "collectLangs rc langs t ps = Inr ps'" by simp
    from Cons.IH [OF this c1 d Cons.prems(4)] show ?thesis by simp
  next
    case True
    with Cons.prems(1) obtain es ps1 where es: "nodeAt [lang] t = Some (Dir es)"
      and s: "collectSlugs rc lang es ps = Inr ps1"
      and r: "collectLangs rc langs t ps1 = Inr ps'"
      by (auto simp: readdirSync_def split: option.splits node.splits sum.splits)
    have "\<forall>e \<in> set es. nodeAt [lang, fst e] t = Some (snd e)"
      using listing_nodes [OF Cons.prems(4) es] by simp
    from collectSlugs_collected [OF s c1 n this]
    have "collectedFrom rc t (q @ [lang]) ps1" .
    from Cons.IH [OF r this d Cons.prems(4)] show ?thesis by simp
  qed
qed

lemma collectProjects_collected:
  assumes "collectProjects rc ls t = Inr ps" "distinct ls" "wellFormed t"
  shows "collectedFrom rc t ls ps"
  using collectLangs_collected [OF assms(1) [unfolded collectProjects_def] collectedFrom_Nil, of "[]"]
    assms(2,3) by simp

lemma detectLanguages_ok:
  assumes "detectLanguages (Some t) = Inr ls" "wellFormed t"
  shows "distinct ls" and "\<forall>l \<in> set ls. existsSync [l] t"
proof -
  from assms(1) obtain es where es: "nodeAt [] t = Some (Dir es)"
    and ls: "ls = map fst (filter (\<lambda>(name, n). isDirectory n \<and> looksLikeLanguage n) es)"
    by (auto simp: detectLanguages_def readdirSync_def split: node.splits)
  have d: "distinct (map fst es)" using assms(2) es by (rule wellFormed_entries)
  then show "distinct ls" unfolding ls by (rule distinct_map_filter)
  show "\<forall>l \<in> set ls. existsSync [l] t"
  proof
    fix l assume "l \<in> set ls"
    then obtain e where "e \<in> set es" "fst e = l" unfolding ls by auto
    with listing_nodes [OF assms(2) es, of e] show "existsSync [l] t"
      by (simp add: existsSync_def)
  qed
qed

section \<open>The listing of a staged item directory\<close>

lemma map_of_putEntry:
  "map_of (putEntry ds w) x = (if x = fst w then Some (File (snd w)) else map_of ds x)"
  by (simp add: putEntry_def AList.update_conv')

lemma map_of_foldl_putEntry:
  "map_of (foldl putEntry ds ws) x
     = (case map_of (rev ws) x of None \<Rightarrow> map_of ds x | Some c \<Rightarrow> Some (File c))"
proof (induction ws arbitrary: ds)
  case Nil
  then show ?case by simp
next
  case (Cons w ws)
  obtain k c where w: "w = (k, c)" by (cases w)
  show ?case
    using Cons.IH [of "putEntry ds w"]
    by (simp add: map_of_putEntry w map_add_def split: option.splits)
qed

lemma keys_foldl_putEntry:
  "fst ` set (foldl putEntry ds ws) = fst ` set ds \<union> fst ` set ws"
proof (induction ws arbitrary: ds)
  case Nil
  then show ?case by simp
next
  case (Cons w ws)
  have "fst ` set (putEntry ds w) = insert (fst w) (fst ` set ds)"
    by (simp add: putEntry_def AList.dom_update)
  with Cons.IH [of "putEntry ds w"] show ?case by auto
qed

lemma distinct_foldl_putEntry:
  "distinct (map fst ds) \<Longrightarrow> distinct (map fst (foldl putEntry ds ws))"
  by (induction ws arbitrary: ds) (simp_all add: putEntry_def AList.distinct_update)

lemma firstSources_lookup:
  "map_of (firstSources ms copied) x = (if x \<in> set copied then None else map_of ms x)"
proof (induction ms copied rule: firstSources.induct)
  case (1 copied)
  then show ?case by simp
next
  case (2 name source rest copied)
  then show ?case by auto
qed

lemma firstSources_keys:
  "fst ` set (firstSources ms copied) = fst ` set ms - set copied"
proof (induction ms copied rule: firstSources.induct)
  case (1 copied)
  then show ?case by simp
next
  case (2 name source rest copied)
  then show ?case by auto
qed

lemma firstSources_distinct: "distinct (map fst (firstSources ms copied))"
proof (induction ms copied rule: firstSources.induct)
  case (1 copied)
  then show ?case by simp
next
  case (2 name source rest copied)
  then show ?case by (auto simp: firstSources_keys)
qed

lemma map_of_rev_distinct: "distinct (map fst xs) \<Longrightarrow> map_of (rev xs) = map_of xs"
  by (rule map_of_inject_set [THEN iffD2]) (simp_all add: rev_map [symmetric])

lemma mediaWrites_lookup:
  "map_of (rev (mediaWrites t lv)) x = map_option (fileAt t) (map_of (allMedia lv) x)"
proof -
  let ?fs = "firstSources (allMedia lv) []"
  have m: "mediaWrites t lv = map (\<lambda>(k, v). (k, fileAt t v)) ?fs"
    by (simp add: mediaWrites_def case_prod_beta)
  have "distinct (map fst (mediaWrites t lv))"
    unfolding m using firstSources_distinct [of "allMedia lv" "[]"]
    by (simp add: case_prod_beta comp_def)
  then have "map_of (rev (mediaWrites t lv)) x = map_of (mediaWrites t lv) x"
    by (simp add: map_of_rev_distinct)
  also have "\<dots> = map_option (fileAt t) (map_of ?fs x)"
    unfolding m by (simp add: map_of_map)
  finally show ?thesis by (simp add: firstSources_lookup)
qed

lemma docWrites_lookup:
  assumes "distinct (map fst lv)"
  shows "map_of (rev (docWrites lv)) (lang @ ''.md'') = map_option content (map_of lv lang)"
proof -
  have k: "map fst (docWrites lv) = map (\<lambda>l. l @ ''.md'') (map fst lv)"
    by (simp add: docWrites_def comp_def)
  have "distinct (map fst (docWrites lv))"
    unfolding k using assms by (simp add: distinct_map inj_on_def)
  then have "map_of (rev (docWrites lv)) (lang @ ''.md'') = map_of (docWrites lv) (lang @ ''.md'')"
    by (simp add: map_of_rev_distinct)
  also have "\<dots> = map_option content (map_of lv lang)"
    by (induction lv) (auto simp: docWrites_def)
  finally show ?thesis .
qed

lemma docWrites_keys: "fst ` set (docWrites lv) = (\<lambda>l. l @ ''.md'') ` fst ` set lv"
  by (simp add: docWrites_def image_image)

lemma mediaWrites_keys: "fst ` set (mediaWrites t lv) = fst ` set (allMedia lv)"
proof -
  have "fst ` set (mediaWrites t lv) = fst ` set (firstSources (allMedia lv) [])"
    by (simp add: mediaWrites_def image_image)
  then show ?thesis by (simp add: firstSources_keys)
qed

lemma staged_keys:
  "fst ` set (stagedEntries t lv ds)
     = fst ` set ds \<union> (\<lambda>l. l @ ''.md'') ` fst ` set lv \<union> fst ` set (allMedia lv)"
  unfolding stagedEntries_def keys_foldl_putEntry
  by (simp add: image_Un docWrites_keys mediaWrites_keys Un_assoc)

lemma staged_distinct:
  "distinct (map fst ds) \<Longrightarrow> distinct (map fst (stagedEntries t lv ds))"
  unfolding stagedEntries_def by (rule distinct_foldl_putEntry)

lemma staged_media:
  assumes "map_of (allMedia lv) x = Some src"
  shows "map_of (stagedEntries t lv ds) x = Some (File (fileAt t src))"
  unfolding stagedEntries_def map_of_foldl_putEntry
  using assms by (simp add: map_add_def mediaWrites_lookup)

lemma staged_document:
  assumes "distinct (map fst lv)" "map_of lv lang = Some d"
    and "lang @ ''.md'' \<notin> fst ` set (allMedia lv)"
  shows "map_of (stagedEntries t lv ds) (lang @ ''.md'') = Some (File (content d))"
proof -
  have "map_of (allMedia lv) (lang @ ''.md'') = None"
    using assms(3) by (simp add: map_of_eq_None_iff)
  then show ?thesis
    unfolding stagedEntries_def map_of_foldl_putEntry
    using docWrites_lookup [OF assms(1), of lang] assms(2)
    by (simp add: map_add_def mediaWrites_lookup)
qed

lemma allMedia_keys: "fst ` set (allMedia lv) = (\<Union>v \<in> set lv. set (files (snd v)))"
  by (auto simp: allMedia_def image_iff case_prod_beta) force+

lemma allMedia_first:
  assumes "lv = before @ (lang, d) # after" "name \<in> set (files d)"
    and "\<forall>v \<in> set before. name \<notin> set (files (snd v))"
  shows "map_of (allMedia lv) name = Some (sourcePath d @ [name])"
proof -
  have a: "allMedia lv = allMedia before @ map (\<lambda>f. (f, sourcePath d @ [f])) (files d) @ allMedia after"
    by (simp add: allMedia_def assms(1))
  have "name \<notin> fst ` set (allMedia before)"
    using assms(3) by (simp add: allMedia_keys)
  then have 1: "map_of (allMedia before) name = None" by (simp add: map_of_eq_None_iff)
  have 2: "map_of (map (\<lambda>f. (f, sourcePath d @ [f])) (files d)) name = Some (sourcePath d @ [name])"
    using assms(2) by (induction "files d") (auto simp: map_of_map_restrict)
  show ?thesis unfolding a using 1 2 by (simp add: map_add_def)
qed

section \<open>The three data properties of a successful migration\<close>

lemma migrated_run:
  assumes "migrated rc t fl ls ps t'"
  shows "\<exists>s'. migrate False ls ps \<lparr>tree = t, faults = fl\<rparr> = (Inr MigrationComplete, s') \<and> tree s' = t'"
  using assms
  by (auto simp: migrated_def main_def split: if_splits sum.splits prod.splits)

lemma migrated_facts:
  assumes m: "migrated rc t fl ls ps t'"
  shows "distinct ls"
    and "collectedFrom rc t ls ps"
    and "\<forall>l \<in> set ls. nodeAt [''_old_structure_backup'', l] t' = nodeAt [l] t"
    and "\<forall>p \<in> set ps. nodeAt [fst p] t'
           = Some (Dir (stagedEntries t (snd p) (entriesAt t (tempDir @ [fst p]))))"
    and "\<forall>p \<in> set ps. \<forall>m \<in> set (firstSources (allMedia (snd p)) []).
            \<exists>c. nodeAt (snd m) t = Some (File c)"
proof -
  from m have wf: "wellFormed t" and dt: "detectLanguages (Some t) = Inr ls"
    and cp: "collectProjects rc ls t = Inr ps" by (simp_all add: migrated_def)
  note dl = detectLanguages_ok [OF dt wf]
  show "distinct ls" by (rule dl(1))
  show cf: "collectedFrom rc t ls ps" using cp dl(1) wf by (rule collectProjects_collected)
  from migrated_run [OF m] obtain s' where
    run: "migrate False ls ps \<lparr>tree = t, faults = fl\<rparr> = (Inr MigrationComplete, s')"
    and t': "tree s' = t'" by blast
  have dp: "distinct (map fst ps)" using cf by (simp add: collectedFrom_def)
  have src: "\<forall>p \<in> set ps. snd p \<noteq> []
               \<and> (\<forall>m \<in> set (allMedia (snd p)). \<exists>l q. snd m = l # q \<and> l \<in> set ls)"
  proof (intro ballI conjI)
    fix p assume p: "p \<in> set ps"
    show "snd p \<noteq> []" using cf p unfolding collectedFrom_def by blast
    fix m assume "m \<in> set (allMedia (snd p))"
    then obtain v name where v: "v \<in> set (snd p)" and mm: "m = (name, sourcePath (snd v) @ [name])"
      by (auto simp: allMedia_def)
    from cf p v have "docOf rc t (fst v) (fst p) (snd v)" unfolding collectedFrom_def by blast
    then have sp: "sourcePath (snd v) = [fst v, fst p]" by (auto simp: docOf_def)
    have "fst v \<in> set ls" using collectedFrom_keys [OF cf p] v by auto
    with mm sp show "\<exists>l q. snd m = l # q \<and> l \<in> set ls" by simp
  qed
  have wf': "wellFormed (tree \<lparr>tree = t, faults = fl\<rparr>)" using wf by simp
  have ex: "\<forall>l \<in> set ls. existsSync [l] (tree \<lparr>tree = t, faults = fl\<rparr>)" using dl(2) by simp
  note mo = migrate_ok [OF run wf' dl(1) ex dp src]
  show "\<forall>l \<in> set ls. nodeAt [''_old_structure_backup'', l] t' = nodeAt [l] t"
    using mo(2) by (simp add: t' backupDir_def)
  show "\<forall>p \<in> set ps. nodeAt [fst p] t'
           = Some (Dir (stagedEntries t (snd p) (entriesAt t (tempDir @ [fst p]))))"
    using mo(3) by (simp add: t')
  show "\<forall>p \<in> set ps. \<forall>m \<in> set (firstSources (allMedia (snd p)) []).
            \<exists>c. nodeAt (snd m) t = Some (File c)"
    using mo(4) by simp
qed

lemma collected_item:
  assumes "collectedFrom rc t ls ps" "distinct ls" "(S, lv) \<in> set ps"
  shows "distinct (map fst lv)"
    and "map fst lv = filter (\<lambda>l. l \<in> fst ` set lv) ls"
    and "(lang, d) \<in> set lv \<Longrightarrow> docOf rc t lang S d"
proof -
  show o: "map fst lv = filter (\<lambda>l. l \<in> fst ` set lv) ls"
    using assms(1,3) unfolding collectedFrom_def by fastforce
  show "distinct (map fst lv)" unfolding o using assms(2) by (rule distinct_filter)
  show "(lang, d) \<in> set lv \<Longrightarrow> docOf rc t lang S d"
    using assms(1,3) unfolding collectedFrom_def by fastforce
qed

lemma entriesAt_distinct: "wellFormed t \<Longrightarrow> distinct (map fst (entriesAt t p))"
  by (auto simp: entriesAt_def split: option.splits node.splits dest: wellFormed_entries)

lemma one_entry:
  "distinct (map fst es) \<Longrightarrow> map_of es k = Some v \<Longrightarrow> length (filter (\<lambda>e. fst e = k) es) = 1"
proof (induction es)
  case Nil
  then show ?case by simp
next
  case (Cons e es)
  show ?case
  proof (cases "fst e = k")
    case True
    with Cons.prems(1) have "k \<notin> fst ` set es" by auto
    then have "filter (\<lambda>e. fst e = k) es = []" by (auto simp: filter_empty_conv)
    with True show ?thesis by simp
  next
    case False
    with Cons show ?thesis by (cases e) auto
  qed
qed

text \<open>
  The example of the specification, run: the item \<^verbatim>\<open>setup-ssh\<close> in English and in Russian,
  \<^verbatim>\<open>diagram.png\<close> in both language folders with different bytes, \<^verbatim>\<open>schema.png\<close> in the
  Russian one only.
\<close>

lemma example_migrated:
  "migrated (\<lambda>b. b)
     (Dir [(''en'', Dir [(''setup-ssh'', Dir [(''index.md'', File ''E''), (''diagram.png'', File ''P'')])]),
           (''ru'', Dir [(''setup-ssh'', Dir [(''index.md'', File ''R''), (''diagram.png'', File ''Q''),
                                              (''schema.png'', File ''Z'')])])])
     []
     [''en'', ''ru'']
     [(''setup-ssh'',
       [(''en'', \<lparr>content = ''E'', files = [''diagram.png''], sourcePath = [''en'', ''setup-ssh'']\<rparr>),
        (''ru'', \<lparr>content = ''R'', files = [''diagram.png'', ''schema.png''],
                  sourcePath = [''ru'', ''setup-ssh'']\<rparr>)])]
     (Dir [(''_old_structure_backup'',
            Dir [(''en'', Dir [(''setup-ssh'', Dir [(''index.md'', File ''E''), (''diagram.png'', File ''P'')])]),
                 (''ru'', Dir [(''setup-ssh'', Dir [(''index.md'', File ''R''), (''diagram.png'', File ''Q''),
                                                    (''schema.png'', File ''Z'')])])]),
           (''setup-ssh'', Dir [(''en.md'', File ''E''), (''ru.md'', File ''R''),
                                (''diagram.png'', File ''P''), (''schema.png'', File ''Z'')])])"
proof -
  let ?t = "Dir [(''en'', Dir [(''setup-ssh'', Dir [(''index.md'', File ''E''), (''diagram.png'', File ''P'')])]),
           (''ru'', Dir [(''setup-ssh'', Dir [(''index.md'', File ''R''), (''diagram.png'', File ''Q''),
                                              (''schema.png'', File ''Z'')])])]"
  let ?ps = "[(''setup-ssh'',
       [(''en'', \<lparr>content = ''E'', files = [''diagram.png''], sourcePath = [''en'', ''setup-ssh'']\<rparr>),
        (''ru'', \<lparr>content = ''R'', files = [''diagram.png'', ''schema.png''],
                  sourcePath = [''ru'', ''setup-ssh'']\<rparr>)])]"
  let ?t' = "Dir [(''_old_structure_backup'',
            Dir [(''en'', Dir [(''setup-ssh'', Dir [(''index.md'', File ''E''), (''diagram.png'', File ''P'')])]),
                 (''ru'', Dir [(''setup-ssh'', Dir [(''index.md'', File ''R''), (''diagram.png'', File ''Q''),
                                                    (''schema.png'', File ''Z'')])])]),
           (''setup-ssh'', Dir [(''en.md'', File ''E''), (''ru.md'', File ''R''),
                                (''diagram.png'', File ''P''), (''schema.png'', File ''Z'')])]"
  have 1: "wellFormed ?t" by code_simp
  have 2: "detectLanguages (Some ?t) = Inr [''en'', ''ru'']" by code_simp
  have 3: "collectProjects (\<lambda>b. b) [''en'', ''ru''] ?t = Inr ?ps" by code_simp
  have 4: "main (\<lambda>b. b) False (Some ?t) [] = (Inr MigrationComplete, Some ?t', [])" by code_simp
  from 1 2 3 4 show ?thesis unfolding migrated_def by blast
qed

text \<open>
  C2. After a live run that ran to its end, take a collected item \<open>S\<close>, a file name that
  one of its language folders holds beside the document, and the first language version
  of the item, in the order the loops enumerate them, whose folder holds a file of that
  name. Then the migrated item directory \<^verbatim>\<open>{slug}\<close> has exactly one entry of that name,
  and it is a file with the bytes of that first source \<^verbatim>\<open>{lang}/{slug}/{name}\<close>, however
  many later language folders hold a file of the name. The languages of an item are
  enumerated in the order of the detected languages.
\<close>

theorem media_first_seen_wins:
  assumes m: "migrated rc t fl ls ps t'" and p: "(S, lv) \<in> set ps"
    and lv: "lv = before @ (lang, d) # after" and nm: "name \<in> set (files d)"
    and first: "\<forall>v \<in> set before. name \<notin> set (files (snd v))"
  shows "map fst lv = filter (\<lambda>l. l \<in> fst ` set lv) ls
       \<and> (\<exists>c entries. nodeAt [lang, S, name] t = Some (File c)
             \<and> nodeAt [S] t' = Some (Dir entries)
             \<and> map_of entries name = Some (File c)
             \<and> length (filter (\<lambda>e. fst e = name) entries) = 1)"
proof -
  note mf = migrated_facts [OF m]
  note ci = collected_item [OF mf(2) mf(1) p]
  have wf: "wellFormed t" using m by (simp add: migrated_def)
  have "(lang, d) \<in> set lv" using lv by simp
  then have "docOf rc t lang S d" by (rule ci(3))
  then have sp: "sourcePath d = [lang, S]" by (auto simp: docOf_def)
  from allMedia_first [OF lv nm first] sp
  have am: "map_of (allMedia lv) name = Some [lang, S, name]" by simp
  then have "map_of (firstSources (allMedia lv) []) name = Some [lang, S, name]"
    by (simp add: firstSources_lookup)
  then have "(name, [lang, S, name]) \<in> set (firstSources (allMedia lv) [])"
    by (rule map_of_SomeD)
  with mf(5) p obtain c where c: "nodeAt [lang, S, name] t = Some (File c)" by fastforce
  then have fa: "fileAt t [lang, S, name] = c" by (simp add: fileAt_def)
  let ?entries = "stagedEntries t lv (entriesAt t (tempDir @ [S]))"
  have e: "nodeAt [S] t' = Some (Dir ?entries)" using mf(4) p by fastforce
  have v: "map_of ?entries name = Some (File c)"
    using staged_media [OF am, of t] fa by simp
  have "distinct (map fst ?entries)"
    by (rule staged_distinct) (rule entriesAt_distinct [OF wf])
  then have "length (filter (\<lambda>e. fst e = name) ?entries) = 1" using v by (rule one_entry)
  with c e v ci(2) show ?thesis by blast
qed

theorem media_first_seen_wins_witness:
  "map fst [(''en'', \<lparr>content = ''E'', files = [''diagram.png''], sourcePath = [''en'', ''setup-ssh'']\<rparr>),
            (''ru'', \<lparr>content = ''R'', files = [''diagram.png'', ''schema.png''],
                      sourcePath = [''ru'', ''setup-ssh'']\<rparr>)] = [''en'', ''ru'']
   \<and> (\<exists>entries.
         nodeAt [''setup-ssh'']
           (Dir [(''_old_structure_backup'',
                  Dir [(''en'', Dir [(''setup-ssh'', Dir [(''index.md'', File ''E''), (''diagram.png'', File ''P'')])]),
                       (''ru'', Dir [(''setup-ssh'', Dir [(''index.md'', File ''R''), (''diagram.png'', File ''Q''),
                                                          (''schema.png'', File ''Z'')])])]),
                 (''setup-ssh'', Dir [(''en.md'', File ''E''), (''ru.md'', File ''R''),
                                      (''diagram.png'', File ''P''), (''schema.png'', File ''Z'')])])
           = Some (Dir entries)
         \<and> map_of entries ''diagram.png'' = Some (File ''P'')
         \<and> length (filter (\<lambda>e. fst e = ''diagram.png'') entries) = 1)"
proof -
  let ?t = "Dir [(''en'', Dir [(''setup-ssh'', Dir [(''index.md'', File ''E''), (''diagram.png'', File ''P'')])]),
           (''ru'', Dir [(''setup-ssh'', Dir [(''index.md'', File ''R''), (''diagram.png'', File ''Q''),
                                              (''schema.png'', File ''Z'')])])]"
  let ?en = "\<lparr>content = ''E'', files = [''diagram.png''], sourcePath = [''en'', ''setup-ssh'']\<rparr>"
  let ?ru = "\<lparr>content = ''R'', files = [''diagram.png'', ''schema.png''],
                  sourcePath = [''ru'', ''setup-ssh'']\<rparr>"
  have src: "nodeAt [''en'', ''setup-ssh'', ''diagram.png''] ?t = Some (File ''P'')" by code_simp
  from media_first_seen_wins [OF example_migrated, of "''setup-ssh''" "[(''en'', ?en), (''ru'', ?ru)]"
      "[]" "''en''" ?en "[(''ru'', ?ru)]" "''diagram.png''"]
  show ?thesis unfolding src by simp
qed

text \<open>
  C3, as the claim states it, fails. First run: the folder \<^verbatim>\<open>en/setup-ssh\<close> holds, beside
  its document, a file \<^verbatim>\<open>en.md\<close>; the media copy overwrites the staged document
  \<^verbatim>\<open>setup-ssh/en.md\<close>, which ends with the bytes of the note and not with those of
  \<^verbatim>\<open>index.md\<close>. Second run: the document is not well-formed UTF-8 (the byte \<^verbatim>\<open>FF\<close>);
  it is read as text and written back, and the decoder's replacement character
  (\<^verbatim>\<open>EF BF BD\<close>) is what the migrated document holds. The codec of the second run is
  the runtime's on the bytes of that document.
\<close>

theorem migration_keeps_data_counterexample:
  "main (\<lambda>b. b) False
     (Some (Dir [(''en'', Dir [(''setup-ssh'',
               Dir [(''index.md'', File ''the document''), (''en.md'', File ''a note'')])])])) []
   = (Inr MigrationComplete,
      Some (Dir [(''_old_structure_backup'', Dir [(''en'', Dir [(''setup-ssh'',
               Dir [(''index.md'', File ''the document''), (''en.md'', File ''a note'')])])]),
                 (''setup-ssh'', Dir [(''en.md'', File ''a note'')])]),
      [])
   \<and> main (\<lambda>b. concat (map (\<lambda>c. if c = CHR 0xFF then [CHR 0xEF, CHR 0xBF, CHR 0xBD] else [c]) b)) False
     (Some (Dir [(''en'', Dir [(''setup-ssh'', Dir [(''index.md'', File [CHR ''a'', CHR 0xFF])])])])) []
   = (Inr MigrationComplete,
      Some (Dir [(''_old_structure_backup'', Dir [(''en'', Dir [(''setup-ssh'',
               Dir [(''index.md'', File [CHR ''a'', CHR 0xFF])])])]),
                 (''setup-ssh'', Dir [(''en.md'', File [CHR ''a'', CHR 0xEF, CHR 0xBF, CHR 0xBD])])]),
      [])"
  by code_simp

text \<open>
  C3, amended. After a live run that ran to its end: for every detected language, the
  entry \<^verbatim>\<open>_old_structure_backup/{lang}\<close> is the original folder \<^verbatim>\<open>{lang}\<close>, whole and
  unchanged (it was renamed there, and nothing removes it); and for every collected
  item and each of its languages such that no language folder of the item holds a
  file named \<^verbatim>\<open>{lang}.md\<close>, the migrated document \<^verbatim>\<open>{slug}/{lang}.md\<close> is a file with the
  bytes \<open>recode c\<close>, where \<open>c\<close> are the bytes of \<^verbatim>\<open>{lang}/{slug}/index.md\<close>: the same
  bytes when the source is well-formed UTF-8.
\<close>

theorem migration_keeps_data:
  assumes m: "migrated rc t fl ls ps t'"
  shows "(\<forall>l \<in> set ls. nodeAt [''_old_structure_backup'', l] t' = nodeAt [l] t)
       \<and> (\<forall>S lv lang d. (S, lv) \<in> set ps \<and> (lang, d) \<in> set lv
              \<and> (\<forall>v \<in> set lv. lang @ ''.md'' \<notin> set (files (snd v)))
            \<longrightarrow> (\<exists>c. nodeAt [lang, S, ''index.md''] t = Some (File c)
                  \<and> nodeAt [S, lang @ ''.md''] t' = Some (File (rc c))))"
proof (intro conjI allI impI)
  note mf = migrated_facts [OF m]
  show "\<forall>l \<in> set ls. nodeAt [''_old_structure_backup'', l] t' = nodeAt [l] t" by (rule mf(3))
  fix S lv lang d
  assume a: "(S, lv) \<in> set ps \<and> (lang, d) \<in> set lv
              \<and> (\<forall>v \<in> set lv. lang @ ''.md'' \<notin> set (files (snd v)))"
  then have p: "(S, lv) \<in> set ps" and v: "(lang, d) \<in> set lv"
    and nc: "\<forall>v \<in> set lv. lang @ ''.md'' \<notin> set (files (snd v))" by simp_all
  note ci = collected_item [OF mf(2) mf(1) p]
  from ci(3) [OF v] obtain entries c where
    dir: "nodeAt [lang, S] t = Some (Dir entries)"
    and ix: "map_of entries ''index.md'' = Some (File c)"
    and d: "content d = rc c" by (auto simp: docOf_def)
  have src: "nodeAt [lang, S, ''index.md''] t = Some (File c)"
    using nodeAt_snoc [OF dir, of "''index.md''"] ix by simp
  have ml: "map_of lv lang = Some d" using ci(1) v by simp
  have nm: "lang @ ''.md'' \<notin> fst ` set (allMedia lv)" using nc by (simp add: allMedia_keys)
  let ?entries = "stagedEntries t lv (entriesAt t (tempDir @ [S]))"
  have e: "nodeAt [S] t' = Some (Dir ?entries)" using mf(4) p by fastforce
  have "nodeAt [S, lang @ ''.md''] t' = map_of ?entries (lang @ ''.md'')"
    using nodeAt_snoc [OF e, of "lang @ ''.md''"] by simp
  also have "\<dots> = Some (File (content d))" by (rule staged_document [OF ci(1) ml nm])
  finally show "\<exists>c. nodeAt [lang, S, ''index.md''] t = Some (File c)
                  \<and> nodeAt [S, lang @ ''.md''] t' = Some (File (rc c))"
    using src d by simp
qed

theorem migration_keeps_data_witness:
  "nodeAt [''_old_structure_backup'', ''ru'']
     (Dir [(''_old_structure_backup'',
            Dir [(''en'', Dir [(''setup-ssh'', Dir [(''index.md'', File ''E''), (''diagram.png'', File ''P'')])]),
                 (''ru'', Dir [(''setup-ssh'', Dir [(''index.md'', File ''R''), (''diagram.png'', File ''Q''),
                                                    (''schema.png'', File ''Z'')])])]),
           (''setup-ssh'', Dir [(''en.md'', File ''E''), (''ru.md'', File ''R''),
                                (''diagram.png'', File ''P''), (''schema.png'', File ''Z'')])])
     = Some (Dir [(''setup-ssh'', Dir [(''index.md'', File ''R''), (''diagram.png'', File ''Q''),
                                       (''schema.png'', File ''Z'')])])
   \<and> nodeAt [''setup-ssh'', ''ru'' @ ''.md'']
     (Dir [(''_old_structure_backup'',
            Dir [(''en'', Dir [(''setup-ssh'', Dir [(''index.md'', File ''E''), (''diagram.png'', File ''P'')])]),
                 (''ru'', Dir [(''setup-ssh'', Dir [(''index.md'', File ''R''), (''diagram.png'', File ''Q''),
                                                    (''schema.png'', File ''Z'')])])]),
           (''setup-ssh'', Dir [(''en.md'', File ''E''), (''ru.md'', File ''R''),
                                (''diagram.png'', File ''P''), (''schema.png'', File ''Z'')])])
     = Some (File ''R'')"
proof -
  let ?t = "Dir [(''en'', Dir [(''setup-ssh'', Dir [(''index.md'', File ''E''), (''diagram.png'', File ''P'')])]),
           (''ru'', Dir [(''setup-ssh'', Dir [(''index.md'', File ''R''), (''diagram.png'', File ''Q''),
                                              (''schema.png'', File ''Z'')])])]"
  let ?en = "\<lparr>content = ''E'', files = [''diagram.png''], sourcePath = [''en'', ''setup-ssh'']\<rparr>"
  let ?ru = "\<lparr>content = ''R'', files = [''diagram.png'', ''schema.png''],
                  sourcePath = [''ru'', ''setup-ssh'']\<rparr>"
  have l: "nodeAt [''ru''] ?t = Some (Dir [(''setup-ssh'', Dir [(''index.md'', File ''R''),
              (''diagram.png'', File ''Q''), (''schema.png'', File ''Z'')])])" by code_simp
  have src: "nodeAt [''ru'', ''setup-ssh'', ''index.md''] ?t = Some (File ''R'')" by code_simp
  let ?t' = "Dir [(''_old_structure_backup'',
            Dir [(''en'', Dir [(''setup-ssh'', Dir [(''index.md'', File ''E''), (''diagram.png'', File ''P'')])]),
                 (''ru'', Dir [(''setup-ssh'', Dir [(''index.md'', File ''R''), (''diagram.png'', File ''Q''),
                                                    (''schema.png'', File ''Z'')])])]),
           (''setup-ssh'', Dir [(''en.md'', File ''E''), (''ru.md'', File ''R''),
                                (''diagram.png'', File ''P''), (''schema.png'', File ''Z'')])]"
  note k = migration_keeps_data [OF example_migrated]
  from k have "nodeAt [''_old_structure_backup'', ''ru''] ?t' = nodeAt [''ru''] ?t" by simp
  moreover from k [THEN conjunct2, rule_format, of "''setup-ssh''" "[(''en'', ?en), (''ru'', ?ru)]" "''ru''" ?ru]
  have "\<exists>c. nodeAt [''ru'', ''setup-ssh'', ''index.md''] ?t = Some (File c)
          \<and> nodeAt [''setup-ssh'', ''ru'' @ ''.md''] ?t' = Some (File c)" by simp
  ultimately show ?thesis unfolding l src by simp
qed

text \<open>
  C4, as the claim states it, fails. First run: the item has documents in English and
  Russian, and the site is configured with English only; the table of the migrated item
  has the one key \<^verbatim>\<open>en\<close>. Second run: the item has an English document only, and its
  folder holds a file \<^verbatim>\<open>ru.md\<close> beside it; the resolver takes the copied file for a
  Russian document. Third run: an earlier run has left \<^verbatim>\<open>_new_structure/setup-ssh/de.md\<close>
  behind; the file is promoted with the item and gives the key \<^verbatim>\<open>de\<close>.
\<close>

theorem migrate_then_resolve_counterexample:
  "collectProjects (\<lambda>b. b) [''en'', ''ru'']
     (Dir [(''en'', Dir [(''setup-ssh'', Dir [(''index.md'', File ''E'')])]),
           (''ru'', Dir [(''setup-ssh'', Dir [(''index.md'', File ''R'')])])])
   = Inr [(''setup-ssh'',
       [(''en'', \<lparr>content = ''E'', files = [], sourcePath = [''en'', ''setup-ssh'']\<rparr>),
        (''ru'', \<lparr>content = ''R'', files = [], sourcePath = [''ru'', ''setup-ssh'']\<rparr>)])]
   \<and> main (\<lambda>b. b) False
     (Some (Dir [(''en'', Dir [(''setup-ssh'', Dir [(''index.md'', File ''E'')])]),
                 (''ru'', Dir [(''setup-ssh'', Dir [(''index.md'', File ''R'')])])])) []
   = (Inr MigrationComplete,
      Some (Dir [(''_old_structure_backup'',
                  Dir [(''en'', Dir [(''setup-ssh'', Dir [(''index.md'', File ''E'')])]),
                       (''ru'', Dir [(''setup-ssh'', Dir [(''index.md'', File ''R'')])])]),
                 (''setup-ssh'', Dir [(''en.md'', File ''E''), (''ru.md'', File ''R'')])]),
      [])
   \<and> getProjectTranslations (\<lambda>c. None) (\<lambda>b. b)
       \<lparr>configLanguages = [''en''], postsRoot = None,
        projectsRoot = Some (Dir [(''_old_structure_backup'',
                  Dir [(''en'', Dir [(''setup-ssh'', Dir [(''index.md'', File ''E'')])]),
                       (''ru'', Dir [(''setup-ssh'', Dir [(''index.md'', File ''R'')])])]),
                 (''setup-ssh'', Dir [(''en.md'', File ''E''), (''ru.md'', File ''R'')])])\<rparr>
       ''setup-ssh''
     = Inr [(''en'', Str ''setup-ssh'')]
   \<and> collectProjects (\<lambda>b. b) [''en'']
     (Dir [(''en'', Dir [(''setup-ssh'', Dir [(''index.md'', File ''E''), (''ru.md'', File ''N'')])])])
   = Inr [(''setup-ssh'',
       [(''en'', \<lparr>content = ''E'', files = [''ru.md''], sourcePath = [''en'', ''setup-ssh'']\<rparr>)])]
   \<and> main (\<lambda>b. b) False
     (Some (Dir [(''en'', Dir [(''setup-ssh'', Dir [(''index.md'', File ''E''), (''ru.md'', File ''N'')])])])) []
   = (Inr MigrationComplete,
      Some (Dir [(''_old_structure_backup'',
                  Dir [(''en'', Dir [(''setup-ssh'', Dir [(''index.md'', File ''E''), (''ru.md'', File ''N'')])])]),
                 (''setup-ssh'', Dir [(''en.md'', File ''E''), (''ru.md'', File ''N'')])]),
      [])
   \<and> getProjectTranslations (\<lambda>c. None) (\<lambda>b. b)
       \<lparr>configLanguages = [''en'', ''ru''], postsRoot = None,
        projectsRoot = Some (Dir [(''_old_structure_backup'',
                  Dir [(''en'', Dir [(''setup-ssh'', Dir [(''index.md'', File ''E''), (''ru.md'', File ''N'')])])]),
                 (''setup-ssh'', Dir [(''en.md'', File ''E''), (''ru.md'', File ''N'')])])\<rparr>
       ''setup-ssh''
     = Inr [(''en'', Str ''setup-ssh''), (''ru'', Str ''setup-ssh'')]
   \<and> collectProjects (\<lambda>b. b) [''en'']
     (Dir [(''en'', Dir [(''setup-ssh'', Dir [(''index.md'', File ''E'')])]),
           (''_new_structure'', Dir [(''setup-ssh'', Dir [(''de.md'', File ''D'')])])])
   = Inr [(''setup-ssh'',
       [(''en'', \<lparr>content = ''E'', files = [], sourcePath = [''en'', ''setup-ssh'']\<rparr>)])]
   \<and> main (\<lambda>b. b) False
     (Some (Dir [(''en'', Dir [(''setup-ssh'', Dir [(''index.md'', File ''E'')])]),
                 (''_new_structure'', Dir [(''setup-ssh'', Dir [(''de.md'', File ''D'')])])])) []
   = (Inr MigrationComplete,
      Some (Dir [(''_old_structure_backup'',
                  Dir [(''en'', Dir [(''setup-ssh'', Dir [(''index.md'', File ''E'')])])]),
                 (''setup-ssh'', Dir [(''de.md'', File ''D''), (''en.md'', File ''E'')])]),
      [])
   \<and> getProjectTranslations (\<lambda>c. None) (\<lambda>b. b)
       \<lparr>configLanguages = [''en'', ''de''], postsRoot = None,
        projectsRoot = Some (Dir [(''_old_structure_backup'',
                  Dir [(''en'', Dir [(''setup-ssh'', Dir [(''index.md'', File ''E'')])])]),
                 (''setup-ssh'', Dir [(''de.md'', File ''D''), (''en.md'', File ''E'')])])\<rparr>
       ''setup-ssh''
     = Inr [(''de'', Str ''setup-ssh''), (''en'', Str ''setup-ssh'')]"
  by code_simp

text \<open>
  C4, amended. Take a content root with no entry \<^verbatim>\<open>_new_structure\<close> left from an earlier
  run and a collected item \<open>S\<close> with documents in the languages \<open>L\<close> (the languages of
  \<open>lv\<close>), and let no configured language code contain \<^verbatim>\<open>.md\<close> nor any language folder
  of the item hold a file named \<^verbatim>\<open>{c}.md\<close> for a configured language \<open>c\<close>. After a live
  run that ran to its end, \<^verbatim>\<open>getPostTranslations\<close> (for a posts root) and
  \<^verbatim>\<open>getProjectTranslations\<close> (for a projects root) return for \<open>S\<close> a table whose keys
  are the languages of \<open>L\<close> that are configured.
\<close>

theorem migrate_then_resolve:
  assumes m: "migrated rc t fl ls ps t'" and p: "(S, lv) \<in> set ps" and S: "S \<noteq> []"
    and fresh: "\<not> existsSync tempDir t"
    and get: "get = getPostTranslations fm rc' cfg \<and> postsRoot cfg = Some t'
            \<or> get = getProjectTranslations fm rc' cfg \<and> projectsRoot cfg = Some t'"
    and sane: "\<forall>c \<in> set (configLanguages cfg).
                 \<not> sublist ''.md'' c \<and> (\<forall>v \<in> set lv. c @ ''.md'' \<notin> set (files (snd v)))"
  shows "\<exists>tr. get S = Inr tr \<and> fst ` set tr = fst ` set lv \<inter> set (configLanguages cfg)"
proof -
  let ?langs = "configLanguages cfg"
  have g: "get S = translationsIn fm rc' ?langs (Some t') S"
    using get by (auto simp: getPostTranslations_def getProjectTranslations_def)
  note mf = migrated_facts [OF m]
  have "nodeAt (tempDir @ [S]) t = None"
    using fresh by (simp add: existsSync_def nodeAt_append)
  then have e0: "entriesAt t (tempDir @ [S]) = []" by (simp add: entriesAt_def)
  let ?entries = "stagedEntries t lv []"
  have e: "nodeAt [S] t' = Some (Dir ?entries)" using mf(4) p e0 by fastforce
  have sd: "slugDir S = [S]" using S by (simp add: slugDir_def)
  have dist: "distinct (map fst ?entries)" by (rule staged_distinct) simp
  have keys: "fst ` set ?entries = (\<lambda>l. l @ ''.md'') ` fst ` set lv \<union> fst ` set (allMedia lv)"
    by (simp add: staged_keys)
  show ?thesis
  proof (cases "?langs = []")
    case True
    then show ?thesis by (simp add: g translationsIn_def)
  next
    case False
    let ?tr = "foldl (addTranslation fm rc' ?langs S) [] ?entries"
    have tr: "get S = Inr ?tr"
      using False e by (simp add: g translationsIn_def sd existsSync_def readdirSync_def)
    have sub: "fst ` set ?tr \<subseteq> set ?langs"
      using foldl_addTranslation_keys [of fm rc' ?langs S "[]" ?entries] by simp
    have iff: "c \<in> fst ` set ?tr \<longleftrightarrow> c \<in> fst ` set lv" if c: "c \<in> set ?langs" for c
    proof -
      from sane c have ns: "\<not> sublist ''.md'' c"
        and nomedia: "c @ ''.md'' \<notin> fst ` set (allMedia lv)" by (auto simp: allMedia_keys)
      have "map_of ?tr c = (case map_of ?entries (c @ ''.md'') of
                None \<Rightarrow> None | Some n \<Rightarrow> Some (publicSlug fm rc' S n))"
        using foldl_addTranslation_lookup [OF ns c dist, of fm rc' S "[]"]
        by (simp split: option.splits)
      then have "map_of ?tr c \<noteq> None \<longleftrightarrow> map_of ?entries (c @ ''.md'') \<noteq> None"
        by (simp split: option.splits)
      then have "c \<in> fst ` set ?tr \<longleftrightarrow> c @ ''.md'' \<in> fst ` set ?entries"
        by (simp add: map_of_eq_None_iff)
      also have "\<dots> \<longleftrightarrow> c @ ''.md'' \<in> (\<lambda>l. l @ ''.md'') ` fst ` set lv"
        unfolding keys using nomedia by simp
      also have "\<dots> \<longleftrightarrow> c \<in> fst ` set lv" by auto
      finally show ?thesis .
    qed
    have "fst ` set ?tr = fst ` set lv \<inter> set ?langs"
    proof (intro equalityI subsetI)
      fix c assume "c \<in> fst ` set ?tr"
      with sub iff show "c \<in> fst ` set lv \<inter> set ?langs" by blast
    next
      fix c assume "c \<in> fst ` set lv \<inter> set ?langs"
      with iff show "c \<in> fst ` set ?tr" by blast
    qed
    with tr show ?thesis by blast
  qed
qed

theorem migrate_then_resolve_witness:
  "\<exists>tr. getProjectTranslations (\<lambda>c. None) (\<lambda>b. b)
           \<lparr>configLanguages = [''en'', ''ru'', ''de''], postsRoot = None,
            projectsRoot = Some (Dir [(''_old_structure_backup'',
              Dir [(''en'', Dir [(''setup-ssh'', Dir [(''index.md'', File ''E''), (''diagram.png'', File ''P'')])]),
                   (''ru'', Dir [(''setup-ssh'', Dir [(''index.md'', File ''R''), (''diagram.png'', File ''Q''),
                                                      (''schema.png'', File ''Z'')])])]),
              (''setup-ssh'', Dir [(''en.md'', File ''E''), (''ru.md'', File ''R''),
                                   (''diagram.png'', File ''P''), (''schema.png'', File ''Z'')])])\<rparr>
           ''setup-ssh'' = Inr tr
        \<and> fst ` set tr = {''en'', ''ru''}"
proof -
  let ?t = "Dir [(''en'', Dir [(''setup-ssh'', Dir [(''index.md'', File ''E''), (''diagram.png'', File ''P'')])]),
           (''ru'', Dir [(''setup-ssh'', Dir [(''index.md'', File ''R''), (''diagram.png'', File ''Q''),
                                              (''schema.png'', File ''Z'')])])]"
  let ?t' = "Dir [(''_old_structure_backup'',
              Dir [(''en'', Dir [(''setup-ssh'', Dir [(''index.md'', File ''E''), (''diagram.png'', File ''P'')])]),
                   (''ru'', Dir [(''setup-ssh'', Dir [(''index.md'', File ''R''), (''diagram.png'', File ''Q''),
                                                      (''schema.png'', File ''Z'')])])]),
              (''setup-ssh'', Dir [(''en.md'', File ''E''), (''ru.md'', File ''R''),
                                   (''diagram.png'', File ''P''), (''schema.png'', File ''Z'')])]"
  let ?en = "\<lparr>content = ''E'', files = [''diagram.png''], sourcePath = [''en'', ''setup-ssh'']\<rparr>"
  let ?ru = "\<lparr>content = ''R'', files = [''diagram.png'', ''schema.png''],
                  sourcePath = [''ru'', ''setup-ssh'']\<rparr>"
  let ?lv = "[(''en'', ?en), (''ru'', ?ru)]"
  let ?cfg = "\<lparr>configLanguages = [''en'', ''ru'', ''de''], postsRoot = None, projectsRoot = Some ?t'\<rparr>"
  have p: "(''setup-ssh'', ?lv) \<in> set [(''setup-ssh'', ?lv)]" by simp
  have S: "''setup-ssh'' \<noteq> []" by simp
  have fresh: "\<not> existsSync tempDir ?t" by code_simp
  have get: "getProjectTranslations (\<lambda>c. None) (\<lambda>b. b) ?cfg = getPostTranslations (\<lambda>c. None) (\<lambda>b. b) ?cfg
               \<and> postsRoot ?cfg = Some ?t'
            \<or> getProjectTranslations (\<lambda>c. None) (\<lambda>b. b) ?cfg = getProjectTranslations (\<lambda>c. None) (\<lambda>b. b) ?cfg
               \<and> projectsRoot ?cfg = Some ?t'" by simp
  have sane: "\<forall>c \<in> set (configLanguages ?cfg).
                 \<not> sublist ''.md'' c \<and> (\<forall>v \<in> set ?lv. c @ ''.md'' \<notin> set (files (snd v)))"
    by code_simp
  have k: "fst ` set ?lv \<inter> set (configLanguages ?cfg) = {''en'', ''ru''}" by auto
  from migrate_then_resolve [OF example_migrated p S fresh get sane]
  show ?thesis unfolding k .
qed

end
